theory Spec2Isabelle
  imports Main "HOL-Library.Word" "HOL-Library.AList"
begin

section \<open>Row-key ranges\<close>

text \<open>
  A JavaScript string is a sequence of 16-bit code units. \<open>String.fromCharCode\<close>
  reduces its argument modulo \<open>2 ^ 16\<close>, which is the addition of \<open>16 word\<close>.
\<close>

type_synonym jsstring = "16 word list"

text \<open>
  A bound of a range object, as the read options and \<open>createPrefixRange_\<close> build it:
  absent, a bare key, or an object \<open>{value, inclusive}\<close>.
\<close>

datatype bound = Undefined | Key jsstring | Bounded (boundValue: jsstring) (inclusive: bool)

record range =
  rangeStart :: bound
  rangeEnd :: bound

text \<open>
  \<open>start.replace(new RegExp('[\xff]+$'), '')\<close>: the leftmost match of a run of
  \<open>0xFF\<close> units that reaches the end of the input is the whole trailing run.
\<close>

definition stripTrailingFF :: "jsstring \<Rightarrow> jsstring" where
  "stripTrailingFF s = rev (dropWhile (\<lambda>c. c = 0xFF) (rev s))"

definition createPrefixRange :: "jsstring \<Rightarrow> range" where
  "createPrefixRange start =
     (let prefix = stripTrailingFF start;
          endKey = (if prefix \<noteq> []
                    then (let position = length prefix - 1;
                              charCode = prefix ! position;
                              nextChar = [charCode + 1]
                          in take position prefix @ nextChar)
                    else [])
      in \<lparr>rangeStart = Key start,
          rangeEnd = Bounded endKey (endKey = [])\<rparr>)"

section \<open>Batched mutation with retry\<close>

text \<open>
  \<open>Table.prototype.mutate\<close> keeps three pieces of call-scoped state, all mutated by
  the stream handlers: the counter \<open>numRequestsMade\<close>, the set
  \<open>pendingEntryIndices\<close> and the map \<open>mutationErrorsByEntryIndex\<close>. A JavaScript
  \<open>Map\<close> iterates in insertion order, \<open>set\<close> on a present key keeps the key's
  place and \<open>delete\<close> removes it: an association list with \<open>AList.update\<close> and
  \<open>AList.delete\<close>. Its keys are results of \<open>entryToIndex.get\<close>, which is
  \<open>undefined\<close> (\<open>None\<close>) for an object that is not a key.

  Entries are JavaScript objects: the type \<open>'e\<close> stands for object references, and
  equality on it is reference identity, the key equality of \<open>Map\<close>.
\<close>

record rpc_status =
  code :: int
  message :: string

text \<open>One element of \<open>obj.entries\<close> in a \<open>data\<close> event.\<close>

record entry_result =
  index :: int
  status :: rpc_status

text \<open>
  The events of the stream that one call of \<open>requestStream\<close> returns: the number of
  \<open>request\<close> events, the \<open>data\<close> events in order, and the event that ends it,
  \<open>error\<close> with its argument or \<open>end\<close>. The stream is the transport's, outside this
  file; each stream is taken to end exactly once. The handlers read \<open>numRequestsMade\<close>
  only when the stream has ended, so the place of the \<open>request\<close> events among the
  \<open>data\<close> events does not matter.
\<close>

record 'x batch_stream =
  requestEvents :: nat
  dataEvents :: "entry_result list list"
  errorEvent :: "'x option"

text \<open>
  A recorded error: \<open>commonGrpc.Service.decorateStatus_(entry.status)\<close>, a function of
  another package and a parameter here, with its \<open>entry\<close> field set to the original
  entry.
\<close>

record ('d, 'e) mutation_error =
  errStatus :: 'd
  errEntry :: "'e option"

record ('d, 'e) mutate_state =
  numRequestsMade :: nat
  pendingEntryIndices :: "nat set"
  mutationErrorsByEntryIndex :: "(nat option \<times> ('d, 'e) mutation_error) list"

text \<open>The argument of the caller's callback; \<open>NoError\<close> is \<open>undefined\<close>.\<close>

datatype ('d, 'e, 'x) callback_err =
    NoError
  | StreamError 'x
  | PartialFailureError "('d, 'e) mutation_error list"

definition RETRY_STATUS_CODES :: "int set" where
  "RETRY_STATUS_CODES = {4, 10, 14}"

text \<open>\<open>new Map(entries.map((entry, index) => [entry, index]))\<close>: a later pair replaces
  an earlier one with the same key.\<close>

definition entryToIndex :: "'e list \<Rightarrow> 'e \<Rightarrow> nat option" where
  "entryToIndex entries =
     foldl (\<lambda>m (entry, index). m(entry \<mapsto> index)) Map.empty (zip entries [0..<length entries])"

text \<open>\<open>entries.filter((entry, index) => pendingEntryIndices.has(index))\<close>.\<close>

definition entryBatch :: "'e list \<Rightarrow> nat set \<Rightarrow> 'e list" where
  "entryBatch entries pending =
     map fst (filter (\<lambda>(entry, index). index \<in> pending) (zip entries [0..<length entries]))"

text \<open>\<open>xs[i]\<close> is \<open>undefined\<close> outside the array.\<close>

definition arrayAt :: "'a list \<Rightarrow> int \<Rightarrow> 'a option" where
  "arrayAt xs i = (if 0 \<le> i \<and> nat i < length xs then Some (xs ! nat i) else None)"

text \<open>\<open>pendingEntryIndices.delete(k)\<close>; the set holds numbers only, so deleting
  \<open>undefined\<close> changes nothing.\<close>

definition setDelete :: "nat option \<Rightarrow> nat set \<Rightarrow> nat set" where
  "setDelete k s = (case k of None \<Rightarrow> s | Some i \<Rightarrow> s - {i})"

text \<open>The body of \<open>obj.entries.forEach\<close> in the \<open>data\<close> handler.\<close>

definition onEntry ::
  "(rpc_status \<Rightarrow> 'd) \<Rightarrow> 'e list \<Rightarrow> 'e list \<Rightarrow> entry_result
     \<Rightarrow> ('d, 'e) mutate_state \<Rightarrow> ('d, 'e) mutate_state" where
  "onEntry decorateStatus entries batch entry st =
     (let originalEntry = arrayAt batch (index entry);
          originalEntriesIndex = Option.bind originalEntry (entryToIndex entries)
      in if code (status entry) = 0
         then st\<lparr>pendingEntryIndices := setDelete originalEntriesIndex (pendingEntryIndices st),
                 mutationErrorsByEntryIndex :=
                   AList.delete originalEntriesIndex (mutationErrorsByEntryIndex st)\<rparr>
         else (let st1 = (if code (status entry) \<notin> RETRY_STATUS_CODES
                          then st\<lparr>pendingEntryIndices :=
                                    setDelete originalEntriesIndex (pendingEntryIndices st)\<rparr>
                          else st);
                   status' = \<lparr>errStatus = decorateStatus (status entry),
                              errEntry = originalEntry\<rparr>
               in st1\<lparr>mutationErrorsByEntryIndex :=
                        AList.update originalEntriesIndex status'
                          (mutationErrorsByEntryIndex st1)\<rparr>))"

text \<open>The \<open>data\<close> handler, for one \<open>obj\<close>.\<close>

definition onData ::
  "(rpc_status \<Rightarrow> 'd) \<Rightarrow> 'e list \<Rightarrow> 'e list \<Rightarrow> entry_result list
     \<Rightarrow> ('d, 'e) mutate_state \<Rightarrow> ('d, 'e) mutate_state" where
  "onData decorateStatus entries batch obj st =
     foldl (\<lambda>s entry. onEntry decorateStatus entries batch entry s) st obj"

text \<open>
  All events of one stream before its last: \<open>entryBatch\<close> is computed once, when the
  request is made, and every \<open>request\<close> event increments \<open>numRequestsMade\<close>.
\<close>

definition onStream ::
  "(rpc_status \<Rightarrow> 'd) \<Rightarrow> 'e list \<Rightarrow> ('d, 'e) mutate_state \<Rightarrow> 'x batch_stream
     \<Rightarrow> ('d, 'e) mutate_state" where
  "onStream decorateStatus entries st stream =
     (let batch = entryBatch entries (pendingEntryIndices st);
          st1 = foldl (\<lambda>s obj. onData decorateStatus entries batch obj s) st (dataEvents stream)
      in st1\<lparr>numRequestsMade := numRequestsMade st1 + requestEvents stream\<rparr>)"

text \<open>What \<open>onBatchResponse(err)\<close> does: another request, or the callback.\<close>

datatype ('d, 'e, 'x) next_step =
    MakeNextBatchRequest
  | Callback "('d, 'e, 'x) callback_err"

definition onBatchResponse ::
  "int \<Rightarrow> 'x option \<Rightarrow> ('d, 'e) mutate_state \<Rightarrow> ('d, 'e, 'x) next_step" where
  "onBatchResponse maxRetries err st =
     (if pendingEntryIndices st \<noteq> {} \<and> int (numRequestsMade st) \<le> maxRetries
      then MakeNextBatchRequest
      else if mutationErrorsByEntryIndex st \<noteq> []
      then Callback (PartialFailureError (map snd (mutationErrorsByEntryIndex st)))
      else Callback (case err of None \<Rightarrow> NoError | Some e \<Rightarrow> StreamError e))"

text \<open>
  What a call of \<open>mutate\<close> does to the outside: the calls of \<open>requestStream\<close>, each
  recorded as the state in which it was made (the request is a function of that state,
  see \<open>requestOf\<close>), the calls of \<open>callback\<close>, and the state at the end.
\<close>

record ('d, 'e, 'x) run =
  calls :: "('d, 'e) mutate_state list"
  callbacks :: "('d, 'e, 'x) callback_err list"
  finalState :: "('d, 'e) mutate_state"

record 'e request =
  currentRetryAttempt :: nat
  reqEntries :: "'e list"

text \<open>\<open>reqOpts.entries\<close> is \<open>entryBatch.map(Mutation.parse)\<close>; \<open>Mutation.parse\<close> is
  outside this file, and the request is recorded before it is applied.\<close>

definition requestOf :: "'e list \<Rightarrow> ('d, 'e) mutate_state \<Rightarrow> 'e request" where
  "requestOf entries st =
     \<lparr>currentRetryAttempt = numRequestsMade st,
      reqEntries = entryBatch entries (pendingEntryIndices st)\<rparr>"

text \<open>
  \<open>makeNextBatchRequest\<close>, driven by the streams that the successive calls of
  \<open>requestStream\<close> return. When the list is used up the last request has been made and
  its stream has not ended: the callback has not been called.
\<close>

fun makeNextBatchRequest ::
  "(rpc_status \<Rightarrow> 'd) \<Rightarrow> int \<Rightarrow> 'e list \<Rightarrow> ('d, 'e) mutate_state \<Rightarrow> 'x batch_stream list
     \<Rightarrow> ('d, 'e, 'x) run" where
  "makeNextBatchRequest decorateStatus maxRetries entries st [] =
     \<lparr>calls = [st], callbacks = [], finalState = st\<rparr>"
| "makeNextBatchRequest decorateStatus maxRetries entries st (stream # streams) =
     (let st' = onStream decorateStatus entries st stream
      in case onBatchResponse maxRetries (errorEvent stream) st' of
           MakeNextBatchRequest \<Rightarrow>
             (let r = makeNextBatchRequest decorateStatus maxRetries entries st' streams
              in r\<lparr>calls := st # calls r\<rparr>)
         | Callback err \<Rightarrow> \<lparr>calls = [st], callbacks = [err], finalState = st'\<rparr>)"

text \<open>
  \<open>mutate\<close>: \<open>tableMaxRetries\<close> is \<open>this.maxRetries\<close> when it is a number;
  \<open>entries\<close> is the list after \<open>flatten(arrify(entries))\<close>.
\<close>

definition effectiveMaxRetries :: "int option \<Rightarrow> int" where
  "effectiveMaxRetries tableMaxRetries = (case tableMaxRetries of Some n \<Rightarrow> n | None \<Rightarrow> 3)"

definition initialState :: "'e list \<Rightarrow> ('d, 'e) mutate_state" where
  "initialState entries =
     \<lparr>numRequestsMade = 0,
      pendingEntryIndices = set [0..<length entries],
      mutationErrorsByEntryIndex = []\<rparr>"

definition mutate ::
  "(rpc_status \<Rightarrow> 'd) \<Rightarrow> int option \<Rightarrow> 'e list \<Rightarrow> 'x batch_stream list \<Rightarrow> ('d, 'e, 'x) run" where
  "mutate decorateStatus tableMaxRetries entries streams =
     makeNextBatchRequest decorateStatus (effectiveMaxRetries tableMaxRetries) entries
       (initialState entries) streams"

text \<open>
  Two auxiliary functions for stating properties of a call: the state after the first
  \<open>j\<close> streams have ended, and the effect of the per-entry results of one stream taken
  as one sequence.
\<close>

definition stateAfter ::
  "(rpc_status \<Rightarrow> 'd) \<Rightarrow> 'e list \<Rightarrow> ('d, 'e) mutate_state \<Rightarrow> 'x batch_stream list \<Rightarrow> nat
     \<Rightarrow> ('d, 'e) mutate_state" where
  "stateAfter decorateStatus entries st streams j =
     foldl (onStream decorateStatus entries) st (take j streams)"

definition onResults ::
  "(rpc_status \<Rightarrow> 'd) \<Rightarrow> 'e list \<Rightarrow> 'e list \<Rightarrow> entry_result list
     \<Rightarrow> ('d, 'e) mutate_state \<Rightarrow> ('d, 'e) mutate_state" where
  "onResults decorateStatus entries batch rs st =
     foldl (\<lambda>s r. onEntry decorateStatus entries batch r s) st rs"

text \<open>
  Every recorded error is keyed by an index at which its entry occurs in \<open>entries\<close>, or
  by \<open>undefined\<close> when the result named no entry of the batch.
\<close>

definition keyedByOriginalIndex ::
  "'e list \<Rightarrow> (nat option \<times> ('d, 'e) mutation_error) list \<Rightarrow> bool" where
  "keyedByOriginalIndex entries errors =
     (\<forall>(k, e) \<in> set errors.
        case k of None \<Rightarrow> errEntry e = None
        | Some j \<Rightarrow> j < length entries \<and> errEntry e = Some (entries ! j))"

text \<open>A per-entry result with an empty message, for concrete inputs.\<close>

definition entryStatus :: "int \<Rightarrow> int \<Rightarrow> entry_result" where
  "entryStatus i c = \<lparr>index = i, status = \<lparr>code = c, message = []\<rparr>\<rparr>"

text \<open>
  For the results of one attempt: the status code of the last result that names batch
  position \<open>i\<close>, and the entries of the errors that the callback receives.
\<close>

definition lastCode :: "entry_result list \<Rightarrow> nat \<Rightarrow> int option" where
  "lastCode rs i =
     (case filter (\<lambda>r. index r = int i) rs of
        [] \<Rightarrow> None
      | x # xs \<Rightarrow> Some (code (status (last (x # xs)))))"

definition failedEntries :: "('d, 'e, 'x) callback_err \<Rightarrow> 'e option list" where
  "failedEntries cb = (case cb of PartialFailureError es \<Rightarrow> map errEntry es | _ \<Rightarrow> [])"

section \<open>The bookkeeping by original index\<close>

text \<open>
  The spec keeps its books by original index. The definitions of this section compute
  that bookkeeping from the per-entry results alone, without \<open>entryToIndex\<close> and
  without the state of the code, so that the engine can be compared with it.

  The batch of a request holds the pending indices in ascending order; a result names a
  position of this list.
\<close>

definition pendingList :: "nat \<Rightarrow> nat set \<Rightarrow> nat list" where
  "pendingList n P = filter (\<lambda>k. k \<in> P) [0..<n]"

text \<open>The results of one stream in arrival order, each as the original index of the
  batch position it names, with its status.\<close>

definition resolved :: "nat \<Rightarrow> nat set \<Rightarrow> 'x batch_stream \<Rightarrow> (nat \<times> rpc_status) list" where
  "resolved n P s =
     map (\<lambda>r. (pendingList n P ! nat (index r), status r)) (concat (dataEvents s))"

text \<open>A result that resolves its index for good: ok, or a status that is not retryable.\<close>

definition leavesPending :: "nat \<times> rpc_status \<Rightarrow> bool" where
  "leavesPending x = (code (snd x) = 0 \<or> code (snd x) \<notin> RETRY_STATUS_CODES)"

definition specPendingAfterStream :: "nat \<Rightarrow> nat set \<Rightarrow> 'x batch_stream \<Rightarrow> nat set" where
  "specPendingAfterStream n P s = P - set (map fst (filter leavesPending (resolved n P s)))"

text \<open>
  What is taken of the transport: a stream names positions of its batch only, and each
  position at most once.
\<close>

definition wellReportedStream :: "nat \<Rightarrow> nat set \<Rightarrow> 'x batch_stream \<Rightarrow> bool" where
  "wellReportedStream n P s =
     ((\<forall>r \<in> set (concat (dataEvents s)).
         0 \<le> index r \<and> nat (index r) < length (pendingList n P))
      \<and> distinct (map index (concat (dataEvents s))))"

fun wellReported :: "nat \<Rightarrow> nat set \<Rightarrow> 'x batch_stream list \<Rightarrow> bool" where
  "wellReported n P [] = True"
| "wellReported n P (s # ss) =
     (wellReportedStream n P s \<and> wellReported n (specPendingAfterStream n P s) ss)"

fun specPendingAfter :: "nat \<Rightarrow> nat set \<Rightarrow> 'x batch_stream list \<Rightarrow> nat set" where
  "specPendingAfter n P [] = P"
| "specPendingAfter n P (s # ss) = specPendingAfter n (specPendingAfterStream n P s) ss"

text \<open>All results of successive attempts in arrival order, by original index.\<close>

fun resolvedTrace :: "nat \<Rightarrow> nat set \<Rightarrow> 'x batch_stream list \<Rightarrow> (nat \<times> rpc_status) list" where
  "resolvedTrace n P [] = []"
| "resolvedTrace n P (s # ss) = resolved n P s @ resolvedTrace n (specPendingAfterStream n P s) ss"

text \<open>
  The errors by index: ok clears the error of its index, any other status records or
  overwrites it. A new index goes to the end and an index with an error keeps its place.
\<close>

definition specErrorStep :: "(nat \<times> rpc_status) list \<Rightarrow> nat \<times> rpc_status \<Rightarrow> (nat \<times> rpc_status) list" where
  "specErrorStep errs x =
     (if code (snd x) = 0 then AList.delete (fst x) errs else AList.update (fst x) (snd x) errs)"

definition specErrorsByIndex :: "(nat \<times> rpc_status) list \<Rightarrow> (nat \<times> rpc_status) list" where
  "specErrorsByIndex T = foldl specErrorStep [] T"

text \<open>The record that the code builds for index \<open>j\<close> and status \<open>s\<close>, and the same with
  its key.\<close>

definition errorRecord ::
  "(rpc_status \<Rightarrow> 'd) \<Rightarrow> 'e list \<Rightarrow> nat \<times> rpc_status \<Rightarrow> ('d, 'e) mutation_error" where
  "errorRecord decorateStatus entries x =
     \<lparr>errStatus = decorateStatus (snd x), errEntry = Some (entries ! fst x)\<rparr>"

definition keyedRecord ::
  "(rpc_status \<Rightarrow> 'd) \<Rightarrow> 'e list \<Rightarrow> nat \<times> rpc_status \<Rightarrow> nat option \<times> ('d, 'e) mutation_error" where
  "keyedRecord decorateStatus entries x = (Some (fst x), errorRecord decorateStatus entries x)"

text \<open>
  Read off the results: whether an index has reported ok, the status of the last result
  of an index, the elements of a list in the order of their first occurrence, and the
  indices that got a failed result and never an ok, in the order of their first failed
  result.
\<close>

definition reportedOk :: "(nat \<times> rpc_status) list \<Rightarrow> nat \<Rightarrow> bool" where
  "reportedOk T i = (\<exists>x \<in> set T. fst x = i \<and> code (snd x) = 0)"

fun lastStatus :: "(nat \<times> rpc_status) list \<Rightarrow> nat \<Rightarrow> rpc_status option" where
  "lastStatus [] i = None"
| "lastStatus (x # T) i =
     (case lastStatus T i of
        Some s \<Rightarrow> Some s
      | None \<Rightarrow> if fst x = i then Some (snd x) else None)"

definition firstOccurrences :: "'a list \<Rightarrow> 'a list" where
  "firstOccurrences xs = rev (remdups (rev xs))"

definition failedNeverOk :: "(nat \<times> rpc_status) list \<Rightarrow> nat list" where
  "failedNeverOk T =
     filter (\<lambda>j. \<not> reportedOk T j)
       (firstOccurrences (map fst (filter (\<lambda>x. code (snd x) \<noteq> 0) T)))"

text \<open>After an ok for an index no further result names it.\<close>

fun noneAfterOk :: "(nat \<times> rpc_status) list \<Rightarrow> bool" where
  "noneAfterOk [] = True"
| "noneAfterOk (x # T) = ((code (snd x) = 0 \<longrightarrow> fst x \<notin> fst ` set T) \<and> noneAfterOk T)"

section \<open>Read requests\<close>

text \<open>
  The options of \<open>createReadStream\<close>. A field that is absent is \<open>None\<close> (or
  \<open>Undefined\<close> for a bound). The tests \<open>if (options.x)\<close> are JavaScript truthiness: an
  absent value, the empty string and the number zero are false; an array or an object is
  true.
\<close>

record ('k, 'f) read_options =
  optDecode :: "bool option"
  optEnd :: bound
  optFilter :: "'f option"
  optKeys :: "'k list option"
  optLimit :: "int option"
  optPrefix :: "jsstring option"
  optRanges :: "range list option"
  optStart :: bound

fun truthyBound :: "bound \<Rightarrow> bool" where
  "truthyBound Undefined = False"
| "truthyBound (Key s) = (s \<noteq> [])"
| "truthyBound (Bounded v i) = True"

definition truthyNumber :: "int option \<Rightarrow> bool" where
  "truthyNumber n = (case n of None \<Rightarrow> False | Some i \<Rightarrow> i \<noteq> 0)"

text \<open>\<open>reqOpts\<close>, the request that \<open>createReadStream\<close> passes to \<open>requestStream\<close>.\<close>

record ('b, 'r) row_set =
  rowKeys :: "'b list option"
  rowRanges :: "'r list option"

record ('t, 'b, 'r, 'p) read_request =
  tableName :: 't
  objectMode :: bool
  rows :: "('b, 'r) row_set option"
  reqFilter :: "'p option"
  rowsLimit :: "int option"

text \<open>
  \<open>options.ranges\<close> after \<open>options.ranges = options.ranges || []\<close> and the two
  \<open>push\<close> calls.
\<close>

definition readRanges :: "('k, 'f) read_options \<Rightarrow> range list" where
  "readRanges options =
     (let ranges0 = (case optRanges options of Some rs \<Rightarrow> rs | None \<Rightarrow> []);
          ranges1 = (if truthyBound (optStart options) \<or> truthyBound (optEnd options)
                     then ranges0 @ [\<lparr>rangeStart = optStart options, rangeEnd = optEnd options\<rparr>]
                     else ranges0);
          ranges2 = (case optPrefix options of
                       Some prefix \<Rightarrow>
                         (if prefix \<noteq> [] then ranges1 @ [createPrefixRange prefix] else ranges1)
                     | None \<Rightarrow> ranges1)
      in ranges2)"

text \<open>
  The request of \<open>createReadStream\<close>. \<open>Mutation.convertToBytes\<close>,
  \<open>Filter.createRange\<close> (with its third argument \<open>'Key'\<close>) and \<open>Filter.parse\<close> are
  in other files and are parameters here.
\<close>

definition createReadStream_reqOpts ::
  "('k \<Rightarrow> 'b) \<Rightarrow> (bound \<Rightarrow> bound \<Rightarrow> 'r) \<Rightarrow> ('f \<Rightarrow> 'p) \<Rightarrow> 't \<Rightarrow> ('k, 'f) read_options
     \<Rightarrow> ('t, 'b, 'r, 'p) read_request" where
  "createReadStream_reqOpts convertToBytes createRange parseFilter tableId options =
     (let ranges = readRanges options;
          reqOpts = \<lparr>tableName = tableId, objectMode = True, rows = None,
                     reqFilter = None, rowsLimit = None\<rparr>;
          reqOpts1 =
            (if optKeys options \<noteq> None \<or> length ranges \<noteq> 0
             then reqOpts\<lparr>rows := Some
                    \<lparr>rowKeys = (case optKeys options of
                                   Some keys \<Rightarrow> Some (map convertToBytes keys)
                                 | None \<Rightarrow> None),
                     rowRanges = (if length ranges \<noteq> 0
                                  then Some (map (\<lambda>range. createRange (rangeStart range)
                                                               (rangeEnd range)) ranges)
                                  else None)\<rparr>\<rparr>
             else reqOpts);
          reqOpts2 = (case optFilter options of
                        Some f \<Rightarrow> reqOpts1\<lparr>reqFilter := Some (parseFilter f)\<rparr>
                      | None \<Rightarrow> reqOpts1);
          reqOpts3 = (if truthyNumber (optLimit options)
                      then reqOpts2\<lparr>rowsLimit := optLimit options\<rparr>
                      else reqOpts2)
      in reqOpts3)"

section \<open>Properties of the prefix range\<close>

lemma stripTrailingFF_decomp:
  "\<exists>n. s = stripTrailingFF s @ replicate n 0xFF"
proof -
  have "rev s = takeWhile (\<lambda>c. c = 0xFF) (rev s) @ dropWhile (\<lambda>c. c = 0xFF) (rev s)"
    by simp
  moreover have "takeWhile (\<lambda>c. c = 0xFF) (rev s)
      = replicate (length (takeWhile (\<lambda>c. c = 0xFF) (rev s))) (0xFF :: 16 word)"
    by (rule replicate_length_same [symmetric]) (auto dest: set_takeWhileD)
  ultimately have "rev s = replicate (length (takeWhile (\<lambda>c. c = 0xFF) (rev s))) 0xFF
      @ dropWhile (\<lambda>c. c = 0xFF) (rev s)"
    by simp
  then have "s = rev (replicate (length (takeWhile (\<lambda>c. c = 0xFF) (rev s))) 0xFF
      @ dropWhile (\<lambda>c. c = 0xFF) (rev s))"
    by (metis rev_rev_ident)
  then show ?thesis
    unfolding stripTrailingFF_def by (auto simp del: takeWhile_dropWhile_id)
qed

lemma stripTrailingFF_last:
  "stripTrailingFF s \<noteq> [] \<Longrightarrow> last (stripTrailingFF s) \<noteq> 0xFF"
proof -
  assume ne: "stripTrailingFF s \<noteq> []"
  then have d: "dropWhile (\<lambda>c. c = 0xFF) (rev s) \<noteq> []"
    by (simp add: stripTrailingFF_def)
  then have "hd (dropWhile (\<lambda>c. c = 0xFF) (rev s)) \<noteq> 0xFF"
    using hd_dropWhile [of "\<lambda>c. c = 0xFF" "rev s"] by blast
  with d show ?thesis
    by (simp add: stripTrailingFF_def last_rev)
qed

text \<open>
  C7. For every prefix, the conversion strips the whole trailing run of \<open>0xFF\<close>: the
  prefix is the stripped string followed by \<open>0xFF\<close> units only, and the stripped string
  does not end in \<open>0xFF\<close>. If the stripped string is not empty, the range starts at the
  original prefix and ends, exclusively, at the stripped string with its last unit
  incremented by one (which for a byte cannot overflow the byte). If nothing remains,
  the end is the empty key with \<open>inclusive\<close> true.
\<close>

theorem createPrefixRange_strip_increment:
  "\<exists>n. start = stripTrailingFF start @ replicate n 0xFF
     \<and> (stripTrailingFF start \<noteq> [] \<longrightarrow>
          last (stripTrailingFF start) \<noteq> 0xFF
        \<and> (unat (last (stripTrailingFF start)) < 0xFF \<longrightarrow>
             unat (last (stripTrailingFF start) + 1) = unat (last (stripTrailingFF start)) + 1)
        \<and> createPrefixRange start =
            \<lparr>rangeStart = Key start,
             rangeEnd = Bounded (butlast (stripTrailingFF start)
                                  @ [last (stripTrailingFF start) + 1]) False\<rparr>)
     \<and> (stripTrailingFF start = [] \<longrightarrow>
          createPrefixRange start = \<lparr>rangeStart = Key start, rangeEnd = Bounded [] True\<rparr>)"
proof -
  obtain n where n: "start = stripTrailingFF start @ replicate n 0xFF"
    using stripTrailingFF_decomp by blast
  have inc: "unat (c + 1) = unat c + 1" if "unat c < 0xFF" for c :: "16 word"
    using that by (simp add: unat_word_ariths)
  have nonempty: "createPrefixRange start =
      \<lparr>rangeStart = Key start,
       rangeEnd = Bounded (butlast (stripTrailingFF start)
                            @ [last (stripTrailingFF start) + 1]) False\<rparr>"
    if "stripTrailingFF start \<noteq> []"
    using that
    by (simp add: createPrefixRange_def Let_def butlast_conv_take last_conv_nth)
  have empty: "createPrefixRange start = \<lparr>rangeStart = Key start, rangeEnd = Bounded [] True\<rparr>"
    if "stripTrailingFF start = []"
    using that by (simp add: createPrefixRange_def)
  from n stripTrailingFF_last inc nonempty empty show ?thesis
    by blast
qed

theorem createPrefixRange_strip_increment_witness:
  "stripTrailingFF [0x61, 0x62, 0xFF, 0xFF] = [0x61, 0x62]
   \<and> createPrefixRange [0x61, 0x62, 0xFF, 0xFF] =
       \<lparr>rangeStart = Key [0x61, 0x62, 0xFF, 0xFF], rangeEnd = Bounded [0x61, 0x63] False\<rparr>"
proof -
  have s: "stripTrailingFF [0x61, 0x62, 0xFF, 0xFF] = [0x61, 0x62]"
    by (simp add: stripTrailingFF_def)
  from createPrefixRange_strip_increment [of "[0x61, 0x62, 0xFF, 0xFF]"] s
  show ?thesis by simp
qed

text \<open>
  C8 as stated fails at the second equation: for the prefix \<open>"a" + 0xFF\<close> the trailing
  \<open>0xFF\<close> is stripped, \<open>"a"\<close> remains, and the end is \<open>"b"\<close>, exclusive; it is not
  the unbounded end.
\<close>

theorem createPrefixRange_a_ff_not_unbounded:
  "rangeEnd (createPrefixRange [0x61, 0xFF]) = Bounded [0x62] False
   \<and> rangeEnd (createPrefixRange [0x61, 0xFF]) \<noteq> Bounded [] True"
  by (simp add: createPrefixRange_def stripTrailingFF_def)

text \<open>
  C8, amended. \<open>createPrefixRange_("a")\<close> starts at \<open>"a"\<close> and ends at \<open>"b"\<close>,
  exclusive; \<open>createPrefixRange_("a" + 0xFF)\<close> starts at \<open>"a" + 0xFF\<close> and ends at
  \<open>"b"\<close>, exclusive; \<open>createPrefixRange_("")\<close> starts at the empty key and has the
  empty, inclusive end, which is the whole table.
\<close>

theorem createPrefixRange_laws:
  "createPrefixRange [0x61] = \<lparr>rangeStart = Key [0x61], rangeEnd = Bounded [0x62] False\<rparr>
   \<and> createPrefixRange [0x61, 0xFF] =
       \<lparr>rangeStart = Key [0x61, 0xFF], rangeEnd = Bounded [0x62] False\<rparr>
   \<and> createPrefixRange [] = \<lparr>rangeStart = Key [], rangeEnd = Bounded [] True\<rparr>"
  by (simp add: createPrefixRange_def stripTrailingFF_def)

section \<open>Properties of the mutation engine\<close>

subsection \<open>The batch and the index of an entry\<close>

lemma entryBatch_nths: "entryBatch entries P = nths entries P"
proof -
  have "(\<lambda>(entry :: 'a, index :: nat). index \<in> P) = (\<lambda>p. snd p \<in> P)"
    by (simp add: fun_eq_iff)
  then show ?thesis
    by (simp add: entryBatch_def nths_def)
qed

lemma zip_upt_conv: "zip xs [0..<length xs] = map (\<lambda>i. (xs ! i, i)) [0..<length xs]"
  by (rule nth_equalityI) simp_all

lemma nths_conv_map_nth:
  "nths xs P = map ((!) xs) (filter (\<lambda>i. i \<in> P) [0..<length xs])"
  by (simp add: nths_def zip_upt_conv filter_map comp_def)

lemma foldl_map_upd:
  "foldl (\<lambda>m (k, v). m(k \<mapsto> v)) m ps = m ++ map_of (rev ps)"
  by (induction ps arbitrary: m) (auto simp: map_add_upd_left fun_eq_iff map_add_def split: option.splits)

lemma entryToIndex_map_of:
  "entryToIndex entries = map_of (rev (zip entries [0..<length entries]))"
  by (simp add: entryToIndex_def foldl_map_upd)

lemma entryToIndex_SomeD:
  "entryToIndex entries e = Some j \<Longrightarrow> j < length entries \<and> entries ! j = e"
  unfolding entryToIndex_map_of
  by (auto dest!: map_of_SomeD simp: set_zip)

lemma entryToIndex_mem:
  assumes "e \<in> set entries"
  shows "\<exists>j. entryToIndex entries e = Some j"
proof -
  from assms obtain i where i: "i < length entries" "entries ! i = e"
    by (auto simp: in_set_conv_nth)
  then have "(e, i) \<in> set (rev (zip entries [0..<length entries]))"
    by (auto simp: set_zip)
  then have "e \<in> fst ` set (rev (zip entries [0..<length entries]))"
    by (rule image_eqI [rotated]) simp
  then have "e \<in> dom (map_of (rev (zip entries [0..<length entries])))"
    by (simp only: dom_map_of_conv_image_fst)
  then show ?thesis
    unfolding entryToIndex_map_of by blast
qed

lemma entryToIndex_distinct:
  "distinct entries \<Longrightarrow> j < length entries \<Longrightarrow> entryToIndex entries (entries ! j) = Some j"
  by (metis entryToIndex_SomeD entryToIndex_mem nth_eq_iff_index_eq nth_mem)

lemma entryBatch_conv:
  "entryBatch entries P = map ((!) entries) (filter (\<lambda>k. k \<in> P) [0..<length entries])"
  by (simp add: entryBatch_nths nths_conv_map_nth)

lemma pendingIndex_props:
  assumes "i < length (entryBatch entries P)"
  shows "filter (\<lambda>k. k \<in> P) [0..<length entries] ! i < length entries"
    and "filter (\<lambda>k. k \<in> P) [0..<length entries] ! i \<in> P"
    and "entryBatch entries P ! i = entries ! (filter (\<lambda>k. k \<in> P) [0..<length entries] ! i)"
proof -
  let ?js = "filter (\<lambda>k. k \<in> P) [0..<length entries]"
  from assms have i: "i < length ?js"
    by (simp add: entryBatch_conv)
  then have "?js ! i \<in> set ?js"
    by (rule nth_mem)
  then show "?js ! i < length entries" and "?js ! i \<in> P"
    by auto
  from i show "entryBatch entries P ! i = entries ! (?js ! i)"
    by (simp add: entryBatch_conv)
qed

text \<open>
  For pairwise distinct entry objects and an index inside the batch, the result is
  resolved against \<open>j\<close>, the original index of the batch position: ok removes \<open>j\<close>
  and its error, a status 4, 10 or 14 keeps \<open>j\<close> pending and sets its error, and any
  other status removes \<open>j\<close> and sets its error.
\<close>

lemma onEntry_distinct:
  assumes "distinct entries"
    and "0 \<le> index r" and "nat (index r) < length (entryBatch entries P)"
  shows
    "(let j = filter (\<lambda>k. k \<in> P) [0..<length entries] ! nat (index r);
          recorded = \<lparr>errStatus = d (status r), errEntry = Some (entries ! j)\<rparr>
      in j < length entries \<and> j \<in> P
       \<and> entryBatch entries P ! nat (index r) = entries ! j
       \<and> onEntry d entries (entryBatch entries P) r st =
           (if code (status r) = 0
            then st\<lparr>pendingEntryIndices := pendingEntryIndices st - {j},
                    mutationErrorsByEntryIndex :=
                      AList.delete (Some j) (mutationErrorsByEntryIndex st)\<rparr>
            else if code (status r) \<in> {4, 10, 14}
            then st\<lparr>mutationErrorsByEntryIndex :=
                      AList.update (Some j) recorded (mutationErrorsByEntryIndex st)\<rparr>
            else st\<lparr>pendingEntryIndices := pendingEntryIndices st - {j},
                    mutationErrorsByEntryIndex :=
                      AList.update (Some j) recorded (mutationErrorsByEntryIndex st)\<rparr>))"
proof -
  let ?j = "filter (\<lambda>k. k \<in> P) [0..<length entries] ! nat (index r)"
  note p = pendingIndex_props [OF assms(3)]
  have at: "arrayAt (entryBatch entries P) (index r) = Some (entries ! ?j)"
    using assms(2,3) p(3) by (simp add: arrayAt_def)
  have ix: "entryToIndex entries (entries ! ?j) = Some ?j"
    using assms(1) p(1) by (rule entryToIndex_distinct)
  show ?thesis
    using p(1,2,3)
    by (simp add: onEntry_def at ix setDelete_def RETRY_STATUS_CODES_def Let_def)
qed



lemma stateAfter_0 [simp]: "stateAfter d entries st streams 0 = st"
  by (simp add: stateAfter_def)

lemma stateAfter_Suc_Cons [simp]:
  "stateAfter d entries st (s # streams) (Suc j) = stateAfter d entries (onStream d entries st s) streams j"
  by (simp add: stateAfter_def)

lemma stateAfter_Suc:
  "j < length streams \<Longrightarrow>
   stateAfter d entries st streams (Suc j) = onStream d entries (stateAfter d entries st streams j) (streams ! j)"
  by (simp add: stateAfter_def take_Suc_conv_app_nth)

subsection \<open>One per-entry result\<close>

lemma onEntry_numRequestsMade [simp]:
  "numRequestsMade (onEntry d entries batch r st) = numRequestsMade st"
  by (simp add: onEntry_def Let_def)

lemma setDelete_subset: "setDelete k s \<subseteq> s"
  by (simp add: setDelete_def split: option.splits)

lemma onEntry_pending_subset:
  "pendingEntryIndices (onEntry d entries batch r st) \<subseteq> pendingEntryIndices st"
  by (simp add: onEntry_def Let_def setDelete_subset)

lemma onEntry_pending_removed:
  "pendingEntryIndices (onEntry d entries batch r st) \<noteq> pendingEntryIndices st \<Longrightarrow>
   code (status r) = 0 \<or> code (status r) \<notin> {4, 10, 14}"
  by (auto simp: onEntry_def Let_def RETRY_STATUS_CODES_def split: if_splits)

lemma onEntry_distinct_keys:
  "distinct (map fst (mutationErrorsByEntryIndex st)) \<Longrightarrow>
   distinct (map fst (mutationErrorsByEntryIndex (onEntry d entries batch r st)))"
  by (simp add: onEntry_def Let_def distinct_update distinct_delete)

subsection \<open>The results of a stream\<close>


lemma onResults_Nil [simp]: "onResults d entries batch [] st = st"
  by (simp add: onResults_def)

lemma onResults_Cons [simp]:
  "onResults d entries batch (r # rs) st = onResults d entries batch rs (onEntry d entries batch r st)"
  by (simp add: onResults_def)

lemma onResults_append [simp]:
  "onResults d entries batch (rs @ rs') st = onResults d entries batch rs' (onResults d entries batch rs st)"
  by (simp add: onResults_def)

lemma foldl_onData:
  "foldl (\<lambda>s obj. onData d entries batch obj s) st objs = onResults d entries batch (concat objs) st"
  by (induction objs arbitrary: st) (simp_all add: onData_def onResults_def)

lemma onStream_conv:
  "onStream d entries st s =
     (let st1 = onResults d entries (entryBatch entries (pendingEntryIndices st)) (concat (dataEvents s)) st
      in st1\<lparr>numRequestsMade := numRequestsMade st1 + requestEvents s\<rparr>)"
  by (simp add: onStream_def foldl_onData Let_def)

lemma onResults_numRequestsMade [simp]:
  "numRequestsMade (onResults d entries batch rs st) = numRequestsMade st"
  by (induction rs arbitrary: st) simp_all

lemma onResults_pending_subset:
  "pendingEntryIndices (onResults d entries batch rs st) \<subseteq> pendingEntryIndices st"
proof (induction rs arbitrary: st)
  case Nil
  show ?case by simp
next
  case (Cons r rs)
  have "pendingEntryIndices (onResults d entries batch rs (onEntry d entries batch r st))
      \<subseteq> pendingEntryIndices (onEntry d entries batch r st)"
    by (rule Cons.IH)
  also have "\<dots> \<subseteq> pendingEntryIndices st"
    by (rule onEntry_pending_subset)
  finally show ?case by simp
qed

lemma onResults_pending_removed:
  "pendingEntryIndices (onResults d entries batch rs st) \<noteq> pendingEntryIndices st \<Longrightarrow>
   \<exists>r \<in> set rs. code (status r) = 0 \<or> code (status r) \<notin> {4, 10, 14}"
proof (induction rs arbitrary: st)
  case Nil
  then show ?case by simp
next
  case (Cons r rs)
  show ?case
  proof (cases "pendingEntryIndices (onEntry d entries batch r st) = pendingEntryIndices st")
    case True
    with Cons.prems
    have "pendingEntryIndices (onResults d entries batch rs (onEntry d entries batch r st))
        \<noteq> pendingEntryIndices (onEntry d entries batch r st)"
      by simp
    from Cons.IH [OF this] show ?thesis by auto
  next
    case False
    from onEntry_pending_removed [OF this] show ?thesis by simp
  qed
qed

lemma onResults_distinct_keys:
  "distinct (map fst (mutationErrorsByEntryIndex st)) \<Longrightarrow>
   distinct (map fst (mutationErrorsByEntryIndex (onResults d entries batch rs st)))"
  by (induction rs arbitrary: st) (simp_all add: onEntry_distinct_keys)

lemma onStream_numRequestsMade:
  "numRequestsMade (onStream d entries st s) = numRequestsMade st + requestEvents s"
  by (simp add: onStream_conv Let_def)

lemma onStream_pending:
  "pendingEntryIndices (onStream d entries st s)
     = pendingEntryIndices (onResults d entries (entryBatch entries (pendingEntryIndices st)) (concat (dataEvents s)) st)"
  by (simp add: onStream_conv Let_def)

lemma onStream_errors:
  "mutationErrorsByEntryIndex (onStream d entries st s)
     = mutationErrorsByEntryIndex (onResults d entries (entryBatch entries (pendingEntryIndices st)) (concat (dataEvents s)) st)"
  by (simp add: onStream_conv Let_def)

lemma onStream_pending_subset:
  "pendingEntryIndices (onStream d entries st s) \<subseteq> pendingEntryIndices st"
  by (simp add: onStream_pending onResults_pending_subset)

lemma onStream_pending_removed:
  "pendingEntryIndices (onStream d entries st s) \<noteq> pendingEntryIndices st \<Longrightarrow>
   \<exists>r \<in> set (concat (dataEvents s)). code (status r) = 0 \<or> code (status r) \<notin> {4, 10, 14}"
  unfolding onStream_pending by (rule onResults_pending_removed)

lemma onStream_distinct_keys:
  "distinct (map fst (mutationErrorsByEntryIndex st)) \<Longrightarrow>
   distinct (map fst (mutationErrorsByEntryIndex (onStream d entries st s)))"
  by (simp add: onStream_errors onResults_distinct_keys)

lemma stateAfter_pending_mono:
  "a \<le> b \<Longrightarrow>
   pendingEntryIndices (stateAfter d entries st streams b)
     \<subseteq> pendingEntryIndices (stateAfter d entries st streams a)"
proof (induction b)
  case 0
  then show ?case by simp
next
  case (Suc b)
  show ?case
  proof (cases "a = Suc b")
    case True
    then show ?thesis by simp
  next
    case False
    with Suc.prems have ab: "a \<le> b" by simp
    show ?thesis
    proof (cases "b < length streams")
      case True
      have "pendingEntryIndices (stateAfter d entries st streams (Suc b))
          \<subseteq> pendingEntryIndices (stateAfter d entries st streams b)"
        by (simp add: stateAfter_Suc [OF True] onStream_pending_subset)
      with Suc.IH [OF ab] show ?thesis by blast
    next
      case False
      then have "stateAfter d entries st streams (Suc b) = stateAfter d entries st streams b"
        by (simp add: stateAfter_def)
      with Suc.IH [OF ab] show ?thesis by simp
    qed
  qed
qed

subsection \<open>Calls of \<open>mutate\<close>\<close>


lemma onBatchResponse_Callback:
  "onBatchResponse mr err st = Callback cb \<Longrightarrow>
   cb = (if mutationErrorsByEntryIndex st \<noteq> []
         then PartialFailureError (map snd (mutationErrorsByEntryIndex st))
         else (case err of None \<Rightarrow> NoError | Some e \<Rightarrow> StreamError e))"
  by (auto simp: onBatchResponse_def split: if_splits)

lemma onBatchResponse_MakeNext:
  "onBatchResponse mr err st = MakeNextBatchRequest \<longleftrightarrow>
   pendingEntryIndices st \<noteq> {} \<and> int (numRequestsMade st) \<le> mr"
  by (simp add: onBatchResponse_def)

lemma run_calls_nonempty: "calls (makeNextBatchRequest d mr entries st streams) \<noteq> []"
  by (induction streams arbitrary: st) (simp_all add: Let_def split: next_step.splits)

lemma run_calls_hd: "hd (calls (makeNextBatchRequest d mr entries st streams)) = st"
  by (cases streams) (simp_all add: Let_def split: next_step.splits)

lemma run_callbacks_length: "length (callbacks (makeNextBatchRequest d mr entries st streams)) \<le> 1"
  by (induction streams arbitrary: st) (simp_all add: Let_def split: next_step.splits)

lemma run_calls_length:
  "length (calls (makeNextBatchRequest d mr entries st streams))
     \<le> (if callbacks (makeNextBatchRequest d mr entries st streams) = []
         then Suc (length streams) else length streams)"
proof (induction streams arbitrary: st)
  case Nil
  show ?case by simp
next
  case (Cons s streams)
  from Cons.IH [of "onStream d entries st s"] show ?case
    by (simp add: Let_def split: next_step.splits if_splits)
qed

lemma run_calls_nth:
  "b < length (calls (makeNextBatchRequest d mr entries st streams)) \<Longrightarrow>
   calls (makeNextBatchRequest d mr entries st streams) ! b = stateAfter d entries st streams b"
proof (induction streams arbitrary: st b)
  case Nil
  then show ?case by simp
next
  case (Cons s streams)
  show ?case
  proof (cases b)
    case 0
    then show ?thesis
      using run_calls_hd [of d mr entries st "s # streams"]
        run_calls_nonempty [of d mr entries st "s # streams"]
      by (simp add: hd_conv_nth)
  next
    case (Suc b')
    with Cons.prems Cons.IH [of b' "onStream d entries st s"] show ?thesis
      by (auto simp: Let_def split: next_step.splits)
  qed
qed

text \<open>A call whose first \<open>k - 1\<close> streams lead to another request and whose
  \<open>k\<close>-th stream leads to the callback makes exactly \<open>k\<close> requests.\<close>

lemma run_unroll:
  assumes "1 \<le> k" and "k \<le> length streams"
    and "\<And>j. 1 \<le> j \<Longrightarrow> j < k \<Longrightarrow>
          onBatchResponse mr (errorEvent (streams ! (j - 1))) (stateAfter d entries st streams j)
            = MakeNextBatchRequest"
    and "onBatchResponse mr (errorEvent (streams ! (k - 1))) (stateAfter d entries st streams k)
            = Callback cb"
  shows "makeNextBatchRequest d mr entries st streams =
           \<lparr>calls = map (stateAfter d entries st streams) [0..<k],
            callbacks = [cb],
            finalState = stateAfter d entries st streams k\<rparr>"
  using assms
proof (induction streams arbitrary: st k)
  case Nil
  then show ?case by simp
next
  case (Cons s streams)
  let ?st' = "onStream d entries st s"
  show ?case
  proof (cases "k = 1")
    case True
    with Cons.prems(4) show ?thesis
      by (simp add: Let_def)
  next
    case False
    with Cons.prems(1) obtain k' where k: "k = Suc k'" "1 \<le> k'"
      by (cases k) auto
    have next1: "onBatchResponse mr (errorEvent s) ?st' = MakeNextBatchRequest"
      using Cons.prems(3) [of 1] k by simp
    have ih: "makeNextBatchRequest d mr entries ?st' streams =
           \<lparr>calls = map (stateAfter d entries ?st' streams) [0..<k'],
            callbacks = [cb],
            finalState = stateAfter d entries ?st' streams k'\<rparr>"
    proof (rule Cons.IH)
      show "1 \<le> k'" by (rule k(2))
      show "k' \<le> length streams" using Cons.prems(2) k by simp
      show "onBatchResponse mr (errorEvent (streams ! (j - 1))) (stateAfter d entries ?st' streams j)
            = MakeNextBatchRequest" if "1 \<le> j" "j < k'" for j
        using Cons.prems(3) [of "Suc j"] that k by (cases j) simp_all
      show "onBatchResponse mr (errorEvent (streams ! (k' - 1))) (stateAfter d entries ?st' streams k')
            = Callback cb"
        using Cons.prems(4) k by (cases k') simp_all
    qed
    have "map (stateAfter d entries st (s # streams)) [0..<Suc k']
        = st # map (stateAfter d entries ?st' streams) [0..<k']"
      by (simp add: upt_conv_Cons map_Suc_upt [symmetric] del: upt_Suc)
    with next1 ih k show ?thesis
      by (simp add: Let_def del: upt_Suc)
  qed
qed

lemma run_callback_value:
  "callbacks (makeNextBatchRequest d mr entries st streams) = [cb] \<Longrightarrow>
   cb = (let final = finalState (makeNextBatchRequest d mr entries st streams);
             n = length (calls (makeNextBatchRequest d mr entries st streams))
         in if mutationErrorsByEntryIndex final \<noteq> []
            then PartialFailureError (map snd (mutationErrorsByEntryIndex final))
            else (case errorEvent (streams ! (n - 1)) of None \<Rightarrow> NoError | Some e \<Rightarrow> StreamError e))"
proof (induction streams arbitrary: st)
  case Nil
  then show ?case by simp
next
  case (Cons s streams)
  show ?case
  proof (cases "onBatchResponse mr (errorEvent s) (onStream d entries st s)")
    case MakeNextBatchRequest
    with Cons.prems Cons.IH [of "onStream d entries st s"]
      run_calls_nonempty [of d mr entries "onStream d entries st s" streams]
    show ?thesis
      by (cases "calls (makeNextBatchRequest d mr entries (onStream d entries st s) streams)")
        (simp_all add: Let_def)
  next
    case (Callback cb')
    with Cons.prems onBatchResponse_Callback [OF Callback] show ?thesis
      by (auto simp: Let_def)
  qed
qed

lemma run_final_distinct_keys:
  "distinct (map fst (mutationErrorsByEntryIndex st)) \<Longrightarrow>
   distinct (map fst (mutationErrorsByEntryIndex
      (finalState (makeNextBatchRequest d mr entries st streams))))"
  by (induction streams arbitrary: st)
    (simp_all add: Let_def onStream_distinct_keys split: next_step.splits)

lemma run_terminates:
  "streams \<noteq> [] \<Longrightarrow> \<forall>s \<in> set streams. 1 \<le> requestEvents s \<Longrightarrow>
   mr < int (numRequestsMade st) + int (length streams) \<Longrightarrow>
   \<exists>cb. callbacks (makeNextBatchRequest d mr entries st streams) = [cb]"
proof (induction streams arbitrary: st)
  case Nil
  then show ?case by simp
next
  case (Cons s streams)
  let ?st' = "onStream d entries st s"
  show ?case
  proof (cases "onBatchResponse mr (errorEvent s) ?st'")
    case MakeNextBatchRequest
    then have le: "int (numRequestsMade ?st') \<le> mr"
      by (simp add: onBatchResponse_MakeNext)
    have n': "numRequestsMade ?st' = numRequestsMade st + requestEvents s"
      by (rule onStream_numRequestsMade)
    from Cons.prems(2) have r: "1 \<le> requestEvents s" by simp
    from le n' r Cons.prems(3) have ne: "streams \<noteq> []"
      by (cases streams) auto
    have "\<exists>cb. callbacks (makeNextBatchRequest d mr entries ?st' streams) = [cb]"
    proof (rule Cons.IH [OF ne])
      show "\<forall>s \<in> set streams. 1 \<le> requestEvents s" using Cons.prems(2) by simp
      show "mr < int (numRequestsMade ?st') + int (length streams)"
        using n' r Cons.prems(3) by simp
    qed
    with MakeNextBatchRequest show ?thesis
      by (simp add: Let_def)
  next
    case (Callback cb)
    then show ?thesis by (simp add: Let_def)
  qed
qed

lemma run_calls_bound:
  "\<forall>s \<in> set streams. 1 \<le> requestEvents s \<Longrightarrow>
   int (length (calls (makeNextBatchRequest d mr entries st streams)))
     \<le> max 1 (mr - int (numRequestsMade st) + 1)"
proof (induction streams arbitrary: st)
  case Nil
  then show ?case by simp
next
  case (Cons s streams)
  let ?st' = "onStream d entries st s"
  show ?case
  proof (cases "onBatchResponse mr (errorEvent s) ?st'")
    case MakeNextBatchRequest
    then have le: "int (numRequestsMade ?st') \<le> mr"
      by (simp add: onBatchResponse_MakeNext)
    have n': "numRequestsMade ?st' = numRequestsMade st + requestEvents s"
      by (rule onStream_numRequestsMade)
    from Cons.prems have r: "1 \<le> requestEvents s" by simp
    have "int (length (calls (makeNextBatchRequest d mr entries ?st' streams)))
       \<le> max 1 (mr - int (numRequestsMade ?st') + 1)"
      by (rule Cons.IH) (use Cons.prems in simp)
    with le n' r MakeNextBatchRequest show ?thesis
      by (simp add: Let_def)
  next
    case (Callback cb)
    then show ?thesis by (simp add: Let_def)
  qed
qed

subsection \<open>Resolution of one result\<close>

text \<open>
  C1 fails on the code when one entry object occurs twice in \<open>entries\<close>:
  \<open>entryToIndex\<close> holds one index per object, the last. The result for position 0 of
  the first batch, status ok, removes index 1 from the pending set and leaves index 0
  pending.
\<close>

theorem onEntry_same_object_twice:
  "onEntry code [7 :: nat, 7] (entryBatch [7, 7] (pendingEntryIndices (initialState [7 :: nat, 7])))
      (entryStatus 0 0) (initialState [7, 7])
    = \<lparr>numRequestsMade = 0, pendingEntryIndices = {0}, mutationErrorsByEntryIndex = []\<rparr>"
  by code_simp

subsection \<open>The keys of the recorded errors\<close>

lemma set_update_cases:
  "p \<in> set (AList.update k v al) \<Longrightarrow> p = (k, v) \<or> p \<in> set al"
  by (induction al) (auto split: if_splits)

lemma set_delete_subset: "set (AList.delete k al) \<subseteq> set al"
  by (auto simp: AList.delete_eq)

lemma arrayAt_mem: "arrayAt xs i = Some x \<Longrightarrow> x \<in> set xs"
  by (auto simp: arrayAt_def split: if_splits)

lemma onEntry_keyed:
  assumes "set batch \<subseteq> set entries"
    and "keyedByOriginalIndex entries (mutationErrorsByEntryIndex st)"
  shows "keyedByOriginalIndex entries (mutationErrorsByEntryIndex (onEntry d entries batch r st))"
proof -
  let ?oe = "arrayAt batch (index r)"
  let ?k = "Option.bind ?oe (entryToIndex entries)"
  let ?v = "\<lparr>errStatus = d (status r), errEntry = ?oe\<rparr>"
  have new: "case ?k of None \<Rightarrow> errEntry ?v = None
             | Some j \<Rightarrow> j < length entries \<and> errEntry ?v = Some (entries ! j)"
  proof (cases ?oe)
    case None
    then show ?thesis by simp
  next
    case (Some e)
    then have "e \<in> set entries"
      using assms(1) arrayAt_mem by fastforce
    then obtain j where j: "entryToIndex entries e = Some j"
      using entryToIndex_mem by fastforce
    with entryToIndex_SomeD [OF j] Some show ?thesis by simp
  qed
  have upd: "keyedByOriginalIndex entries (AList.update ?k ?v (mutationErrorsByEntryIndex st))"
    unfolding keyedByOriginalIndex_def
  proof (rule ballI)
    fix p assume "p \<in> set (AList.update ?k ?v (mutationErrorsByEntryIndex st))"
    then consider "p = (?k, ?v)" | "p \<in> set (mutationErrorsByEntryIndex st)"
      using set_update_cases by fastforce
    then show "case p of (k, e) \<Rightarrow> (case k of None \<Rightarrow> errEntry e = None
        | Some j \<Rightarrow> j < length entries \<and> errEntry e = Some (entries ! j))"
    proof cases
      case 1
      with new show ?thesis by simp
    next
      case 2
      with assms(2) show ?thesis
        unfolding keyedByOriginalIndex_def by blast
    qed
  qed
  have del: "keyedByOriginalIndex entries (AList.delete ?k (mutationErrorsByEntryIndex st))"
    using assms(2) set_delete_subset [of ?k "mutationErrorsByEntryIndex st"]
    unfolding keyedByOriginalIndex_def by blast
  show ?thesis
    using upd del by (simp add: onEntry_def Let_def)
qed

lemma onResults_keyed:
  "set batch \<subseteq> set entries \<Longrightarrow>
   keyedByOriginalIndex entries (mutationErrorsByEntryIndex st) \<Longrightarrow>
   keyedByOriginalIndex entries (mutationErrorsByEntryIndex (onResults d entries batch rs st))"
  by (induction rs arbitrary: st) (simp_all add: onEntry_keyed)

lemma onStream_keyed:
  "keyedByOriginalIndex entries (mutationErrorsByEntryIndex st) \<Longrightarrow>
   keyedByOriginalIndex entries (mutationErrorsByEntryIndex (onStream d entries st s))"
  by (simp add: onStream_errors onResults_keyed entryBatch_nths set_nths_subset)

lemma run_final_keyed:
  "keyedByOriginalIndex entries (mutationErrorsByEntryIndex st) \<Longrightarrow>
   keyedByOriginalIndex entries (mutationErrorsByEntryIndex
      (finalState (makeNextBatchRequest d mr entries st streams)))"
  by (induction streams arbitrary: st)
    (simp_all add: Let_def onStream_keyed split: next_step.splits)

lemma onResults_all_ok_no_errors:
  "mutationErrorsByEntryIndex st = [] \<Longrightarrow> \<forall>r \<in> set rs. code (status r) = 0 \<Longrightarrow>
   mutationErrorsByEntryIndex (onResults d entries batch rs st) = []"
  by (induction rs arbitrary: st) (simp_all add: onEntry_def Let_def)

lemma initialState_simps [simp]:
  "numRequestsMade (initialState entries) = 0"
  "pendingEntryIndices (initialState entries) = {0..<length entries}"
  "mutationErrorsByEntryIndex (initialState entries) = []"
  by (simp_all add: initialState_def)

lemma initialState_keyed: "keyedByOriginalIndex entries (mutationErrorsByEntryIndex (initialState entries))"
  by (simp add: keyedByOriginalIndex_def)

lemma nths_distinct_notin:
  assumes "distinct xs" and "i < length xs" and "i \<notin> P"
  shows "xs ! i \<notin> set (nths xs P)"
proof
  assume "xs ! i \<in> set (nths xs P)"
  then obtain j where j: "j < length xs" "j \<in> P" "xs ! j = xs ! i"
    by (auto simp: set_nths)
  with assms(1,2) have "j = i"
    by (simp add: nth_eq_iff_index_eq)
  with j(2) assms(3) show False by simp
qed

lemma stateAfter_numRequestsMade:
  "j \<le> length streams \<Longrightarrow> \<forall>i<j. requestEvents (streams ! i) = 1 \<Longrightarrow>
   numRequestsMade (stateAfter d entries st streams j) = numRequestsMade st + j"
proof (induction j)
  case 0
  show ?case by simp
next
  case (Suc j)
  then have "j < length streams" by simp
  with Suc show ?case
    by (simp add: stateAfter_Suc onStream_numRequestsMade)
qed

subsection \<open>The pending set over a call\<close>

text \<open>
  In one call of \<open>mutate\<close> the first request is made with every index pending, the
  pending set of a later request is a subset of the pending set of every earlier one,
  and the batch of each request is the sublist of \<open>entries\<close> at the pending positions.
\<close>

lemma calls_pending_subset:
  "pendingEntryIndices (calls (mutate d tmr entries streams) ! 0) = {0..<length entries}
   \<and> (\<forall>b. Suc b < length (calls (mutate d tmr entries streams)) \<longrightarrow>
          calls (mutate d tmr entries streams) ! Suc b
            = onStream d entries (calls (mutate d tmr entries streams) ! b) (streams ! b)
        \<and> (pendingEntryIndices (calls (mutate d tmr entries streams) ! Suc b)
              \<noteq> pendingEntryIndices (calls (mutate d tmr entries streams) ! b) \<longrightarrow>
             (\<exists>x \<in> set (concat (dataEvents (streams ! b))).
                code (status x) = 0 \<or> code (status x) \<notin> {4, 10, 14})))
   \<and> (\<forall>a b. a \<le> b \<and> b < length (calls (mutate d tmr entries streams)) \<longrightarrow>
          pendingEntryIndices (calls (mutate d tmr entries streams) ! b)
            \<subseteq> pendingEntryIndices (calls (mutate d tmr entries streams) ! a)
        \<and> reqEntries (requestOf entries (calls (mutate d tmr entries streams) ! b))
            = nths entries (pendingEntryIndices (calls (mutate d tmr entries streams) ! b))
        \<and> (\<forall>i. i < length entries
                \<and> i \<notin> pendingEntryIndices (calls (mutate d tmr entries streams) ! a)
                \<and> distinct entries \<longrightarrow>
               entries ! i
                 \<notin> set (reqEntries (requestOf entries (calls (mutate d tmr entries streams) ! b)))))"
proof -
  let ?mr = "effectiveMaxRetries tmr"
  let ?st = "initialState entries :: ('a, 'b) mutate_state"
  let ?r = "makeNextBatchRequest d ?mr entries ?st streams"
  have r: "mutate d tmr entries streams = ?r"
    by (simp add: mutate_def)
  have nth: "calls ?r ! b = stateAfter d entries ?st streams b" if "b < length (calls ?r)" for b
    using that by (rule run_calls_nth)
  have len: "length (calls ?r) \<le> Suc (length streams)"
    using run_calls_length [of d ?mr entries ?st streams] by (simp split: if_splits)
  have ne: "0 < length (calls ?r)"
    using run_calls_nonempty [of d ?mr entries ?st streams] by simp
  have first: "pendingEntryIndices (calls ?r ! 0) = {0..<length entries}"
    using nth [OF ne] by simp
  have chain: "calls ?r ! Suc b = onStream d entries (calls ?r ! b) (streams ! b)"
    if "Suc b < length (calls ?r)" for b
  proof -
    from that len have b: "b < length streams" by simp
    from that have "b < length (calls ?r)" by simp
    with that show ?thesis
      by (simp add: nth stateAfter_Suc [OF b])
  qed
  have later: "pendingEntryIndices (calls ?r ! b) \<subseteq> pendingEntryIndices (calls ?r ! a)
        \<and> reqEntries (requestOf entries (calls ?r ! b))
            = nths entries (pendingEntryIndices (calls ?r ! b))
        \<and> (\<forall>i. i < length entries \<and> i \<notin> pendingEntryIndices (calls ?r ! a) \<and> distinct entries \<longrightarrow>
               entries ! i \<notin> set (reqEntries (requestOf entries (calls ?r ! b))))"
    if ab: "a \<le> b" "b < length (calls ?r)" for a b
  proof -
    from ab have a: "a < length (calls ?r)" by simp
    have sub: "pendingEntryIndices (calls ?r ! b) \<subseteq> pendingEntryIndices (calls ?r ! a)"
      using stateAfter_pending_mono [OF ab(1), of d entries ?st streams]
      by (simp add: nth [OF ab(2)] nth [OF a])
    have batch: "reqEntries (requestOf entries (calls ?r ! b))
            = nths entries (pendingEntryIndices (calls ?r ! b))"
      by (simp add: requestOf_def entryBatch_nths)
    have "entries ! i \<notin> set (reqEntries (requestOf entries (calls ?r ! b)))"
      if "i < length entries" "i \<notin> pendingEntryIndices (calls ?r ! a)" "distinct entries" for i
    proof -
      from that(2) sub have "i \<notin> pendingEntryIndices (calls ?r ! b)" by blast
      with that(1,3) show ?thesis
        unfolding batch by (intro nths_distinct_notin)
    qed
    then have "\<forall>i. i < length entries \<and> i \<notin> pendingEntryIndices (calls ?r ! a) \<and> distinct entries \<longrightarrow>
               entries ! i \<notin> set (reqEntries (requestOf entries (calls ?r ! b)))"
      by (intro allI impI) (elim conjE)
    with sub batch show ?thesis by (intro conjI)
  qed
  have B: "\<forall>b. Suc b < length (calls ?r) \<longrightarrow>
          calls ?r ! Suc b = onStream d entries (calls ?r ! b) (streams ! b)
        \<and> (pendingEntryIndices (calls ?r ! Suc b) \<noteq> pendingEntryIndices (calls ?r ! b) \<longrightarrow>
             (\<exists>x \<in> set (concat (dataEvents (streams ! b))).
                code (status x) = 0 \<or> code (status x) \<notin> {4, 10, 14}))"
  proof (intro allI impI conjI)
    fix b assume b: "Suc b < length (calls ?r)"
    then show "calls ?r ! Suc b = onStream d entries (calls ?r ! b) (streams ! b)"
      by (rule chain)
    assume "pendingEntryIndices (calls ?r ! Suc b) \<noteq> pendingEntryIndices (calls ?r ! b)"
    with chain [OF b]
    have "pendingEntryIndices (onStream d entries (calls ?r ! b) (streams ! b))
        \<noteq> pendingEntryIndices (calls ?r ! b)"
      by metis
    then show "\<exists>x \<in> set (concat (dataEvents (streams ! b))).
                code (status x) = 0 \<or> code (status x) \<notin> {4, 10, 14}"
      by (rule onStream_pending_removed)
  qed
  have D: "\<forall>a b. a \<le> b \<and> b < length (calls ?r) \<longrightarrow>
          pendingEntryIndices (calls ?r ! b) \<subseteq> pendingEntryIndices (calls ?r ! a)
        \<and> reqEntries (requestOf entries (calls ?r ! b))
            = nths entries (pendingEntryIndices (calls ?r ! b))
        \<and> (\<forall>i. i < length entries \<and> i \<notin> pendingEntryIndices (calls ?r ! a) \<and> distinct entries \<longrightarrow>
               entries ! i \<notin> set (reqEntries (requestOf entries (calls ?r ! b))))"
  proof (intro allI impI)
    fix a b assume "a \<le> b \<and> b < length (calls ?r)"
    then have "a \<le> b" "b < length (calls ?r)" by simp_all
    then show "pendingEntryIndices (calls ?r ! b) \<subseteq> pendingEntryIndices (calls ?r ! a)
        \<and> reqEntries (requestOf entries (calls ?r ! b))
            = nths entries (pendingEntryIndices (calls ?r ! b))
        \<and> (\<forall>i. i < length entries \<and> i \<notin> pendingEntryIndices (calls ?r ! a) \<and> distinct entries \<longrightarrow>
               entries ! i \<notin> set (reqEntries (requestOf entries (calls ?r ! b))))"
      by (rule later)
  qed
  from first B D show ?thesis
    unfolding r by (intro conjI)
qed

subsection \<open>A single attempt\<close>

lemma lastCode_Nil [simp]: "lastCode [] i = None"
  by (simp add: lastCode_def)

lemma lastCode_Cons:
  "lastCode (r # rs) i =
     (case lastCode rs i of
        Some c \<Rightarrow> Some c
      | None \<Rightarrow> if index r = int i then Some (code (status r)) else None)"
  by (simp add: lastCode_def split: list.splits)

lemma dom_delete: "fst ` set (AList.delete k al) = fst ` set al - {k}"
  by (auto simp: AList.delete_eq)

lemma entryBatch_all: "entryBatch entries {0..<length entries} = entries"
  by (simp add: entryBatch_nths nths_all)

lemma onEntry_whole_batch_keys:
  assumes "distinct entries" and "0 \<le> index r" and "nat (index r) < length entries"
  shows "fst ` set (mutationErrorsByEntryIndex (onEntry d entries entries r st))
       = (if code (status r) = 0
          then fst ` set (mutationErrorsByEntryIndex st) - {Some (nat (index r))}
          else insert (Some (nat (index r))) (fst ` set (mutationErrorsByEntryIndex st)))"
proof -
  have at: "arrayAt entries (index r) = Some (entries ! nat (index r))"
    using assms(2,3) by (simp add: arrayAt_def)
  have ix: "entryToIndex entries (entries ! nat (index r)) = Some (nat (index r))"
    using assms(1,3) by (rule entryToIndex_distinct)
  show ?thesis
    by (simp add: onEntry_def Let_def at ix dom_delete dom_update)
qed

lemma onResults_whole_batch_keys:
  assumes "distinct entries"
    and "\<forall>r \<in> set rs. 0 \<le> index r \<and> nat (index r) < length entries"
  shows "Some i \<in> fst ` set (mutationErrorsByEntryIndex (onResults d entries entries rs st))
       \<longleftrightarrow> (case lastCode rs i of
              None \<Rightarrow> Some i \<in> fst ` set (mutationErrorsByEntryIndex st)
            | Some c \<Rightarrow> c \<noteq> 0)"
    and "None \<in> fst ` set (mutationErrorsByEntryIndex (onResults d entries entries rs st))
       \<longleftrightarrow> None \<in> fst ` set (mutationErrorsByEntryIndex st)"
  using assms(2)
proof (induction rs arbitrary: st)
  case Nil
  {
    case 1 show ?case by simp
  next
    case 2 show ?case by simp
  }
next
  case (Cons r rs)
  let ?st' = "onEntry d entries entries r st"
  {
    case 1
    then have r: "0 \<le> index r" "nat (index r) < length entries"
      and rs: "\<forall>r \<in> set rs. 0 \<le> index r \<and> nat (index r) < length entries"
      by simp_all
    note keys = onEntry_whole_batch_keys [OF assms(1) r, of d st]
    have idx: "index r = int i \<longleftrightarrow> nat (index r) = i"
      using r(1) by auto
    show ?case
      unfolding onResults_Cons Cons.IH(1) [OF rs] keys
      by (auto simp: lastCode_Cons idx split: option.splits)
  next
    case 2
    then have r: "0 \<le> index r" "nat (index r) < length entries"
      and rs: "\<forall>r \<in> set rs. 0 \<le> index r \<and> nat (index r) < length entries"
      by simp_all
    note keys = onEntry_whole_batch_keys [OF assms(1) r, of d st]
    show ?case
      unfolding onResults_Cons Cons.IH(2) [OF rs] keys
      by simp
  }
qed

text \<open>
  With \<open>maxRetries = 0\<close>, pairwise distinct entry objects, a stream that fires a
  \<open>request\<close> event and results that name positions of the batch, one request is made
  and the callback receives exactly the entries whose last status in the attempt was not
  ok.
\<close>

lemma single_attempt_failures:
  fixes d :: "rpc_status \<Rightarrow> 'd" and entries :: "'e list" and s :: "'x batch_stream"
  assumes "distinct entries" and "1 \<le> requestEvents s"
    and "\<forall>r \<in> set (concat (dataEvents s)). 0 \<le> index r \<and> nat (index r) < length entries"
  shows "calls (mutate d (Some 0) entries (s # rest)) = [initialState entries]
     \<and> (\<exists>cb. callbacks (mutate d (Some 0) entries (s # rest)) = [cb]
           \<and> set (failedEntries cb)
             = {Some (entries ! i) | i. i < length entries
                  \<and> (\<exists>c. lastCode (concat (dataEvents s)) i = Some c \<and> c \<noteq> 0)})"
proof -
  let ?st = "initialState entries :: ('d, 'e) mutate_state"
  let ?st' = "onStream d entries ?st s"
  let ?errs = "mutationErrorsByEntryIndex ?st'"
  let ?rs = "concat (dataEvents s)"
  have errs: "?errs = mutationErrorsByEntryIndex (onResults d entries entries ?rs ?st)"
    by (simp add: onStream_errors entryBatch_all)
  have some: "Some i \<in> fst ` set ?errs \<longleftrightarrow> (\<exists>c. lastCode ?rs i = Some c \<and> c \<noteq> 0)" for i
    unfolding errs onResults_whole_batch_keys(1) [OF assms(1,3)]
    by (simp split: option.splits)
  have none: "None \<notin> fst ` set ?errs"
    unfolding errs onResults_whole_batch_keys(2) [OF assms(1,3)]
    by simp
  have keyed: "keyedByOriginalIndex entries ?errs"
    by (rule onStream_keyed) (rule initialState_keyed)
  have "int (numRequestsMade ?st') > 0"
    using assms(2) by (simp add: onStream_numRequestsMade)
  then have nxt: "onBatchResponse 0 (errorEvent s) ?st'
      = Callback (if ?errs \<noteq> [] then PartialFailureError (map snd ?errs)
                  else (case errorEvent s of None \<Rightarrow> NoError | Some e \<Rightarrow> StreamError e))"
    by (simp add: onBatchResponse_def)
  define cb :: "('d, 'e, 'x) callback_err"
    where "cb = (if ?errs \<noteq> [] then PartialFailureError (map snd ?errs)
                  else (case errorEvent s of None \<Rightarrow> NoError | Some e \<Rightarrow> StreamError e))"
  have cb: "onBatchResponse 0 (errorEvent s) ?st' = Callback cb"
    by (simp only: nxt cb_def)
  have failed: "failedEntries cb = map errEntry (map snd ?errs)"
    by (simp add: cb_def failedEntries_def split: option.splits)
  have run: "makeNextBatchRequest d 0 entries ?st (s # rest)
      = \<lparr>calls = [?st], callbacks = [cb], finalState = ?st'\<rparr>"
    using cb by (simp add: Let_def)
  have "set (failedEntries cb)
      = {Some (entries ! i) | i. i < length entries \<and> (\<exists>c. lastCode ?rs i = Some c \<and> c \<noteq> 0)}"
    (is "?L = ?R")
  proof (rule set_eqI)
    fix x :: "'e option"
    show "x \<in> ?L \<longleftrightarrow> x \<in> ?R"
    proof
      assume "x \<in> ?L"
      then obtain k e where ke: "(k, e) \<in> set ?errs" "x = errEntry e"
        unfolding failed by auto
      then have "k \<in> fst ` set ?errs"
        by (metis fst_conv image_eqI)
      with none obtain j where j: "k = Some j"
        by (cases k) auto
      with ke(1) keyed have "j < length entries" "errEntry e = Some (entries ! j)"
        unfolding keyedByOriginalIndex_def by auto
      moreover from \<open>k \<in> fst ` set ?errs\<close> j some have "\<exists>c. lastCode ?rs j = Some c \<and> c \<noteq> 0"
        by simp
      ultimately show "x \<in> ?R"
        using ke(2) by auto
    next
      assume "x \<in> ?R"
      then obtain i c where i: "x = Some (entries ! i)" "i < length entries"
          "lastCode ?rs i = Some c" "c \<noteq> 0"
        by auto
      with some have "Some i \<in> fst ` set ?errs"
        by simp
      then obtain e where e: "(Some i, e) \<in> set ?errs"
        by auto
      with keyed have "errEntry e = Some (entries ! i)"
        unfolding keyedByOriginalIndex_def by auto
      with e i(1) show "x \<in> ?L"
        unfolding failed by force
    qed
  qed
  with run show ?thesis
    by (simp add: mutate_def effectiveMaxRetries_def)
qed

subsection \<open>The number of requests\<close>

text \<open>
  C4 fails on the code for the same reason as C1. With \<open>maxRetries = 0\<close> and one
  object at both positions, the failure (code 5) of position 0 is recorded under index
  1 and cleared by the ok of position 1: the callback reports no error.
\<close>

theorem mutate_same_object_twice:
  "callbacks (mutate code (Some 0) [7 :: nat, 7]
      [\<lparr>requestEvents = 1, dataEvents = [[entryStatus 0 5, entryStatus 1 0]],
        errorEvent = None :: string option\<rparr>])
    = [NoError]"
  by code_simp

text \<open>
  If the first \<open>k\<close> streams each fire one \<open>request\<close> event, some index is pending
  after each of the first \<open>k - 1\<close> of them, after the \<open>k\<close>-th no index is pending and
  no error is recorded, and the \<open>k\<close>-th stream ends with \<open>end\<close>, then exactly \<open>k\<close>
  requests are made and the callback is called once, without an error.
\<close>

lemma run_resolved_after_k_attempts:
  fixes d :: "rpc_status \<Rightarrow> 'd" and entries :: "'e list" and streams :: "'x batch_stream list"
  assumes "1 \<le> k" and "int k \<le> effectiveMaxRetries tmr" and "k \<le> length streams"
    and "\<forall>j<k. requestEvents (streams ! j) = 1"
    and "\<forall>j. 1 \<le> j \<and> j < k \<longrightarrow>
           pendingEntryIndices (stateAfter d entries (initialState entries) streams j) \<noteq> {}"
    and "pendingEntryIndices (stateAfter d entries (initialState entries) streams k) = {}"
    and "mutationErrorsByEntryIndex (stateAfter d entries (initialState entries) streams k) = []"
    and "errorEvent (streams ! (k - 1)) = None"
  shows "length (calls (mutate d tmr entries streams)) = k
     \<and> callbacks (mutate d tmr entries streams) = [NoError]
     \<and> finalState (mutate d tmr entries streams)
         = stateAfter d entries (initialState entries) streams k"
proof -
  let ?mr = "effectiveMaxRetries tmr"
  let ?st = "initialState entries :: ('d, 'e) mutate_state"
  have "makeNextBatchRequest d ?mr entries ?st streams =
           \<lparr>calls = map (stateAfter d entries ?st streams) [0..<k],
            callbacks = [NoError],
            finalState = stateAfter d entries ?st streams k\<rparr>"
  proof (rule run_unroll [OF assms(1) assms(3)])
    fix j assume j: "1 \<le> j" "j < k"
    with assms(3,4) have "numRequestsMade (stateAfter d entries ?st streams j) = j"
      by (simp add: stateAfter_numRequestsMade)
    with j assms(2,5)
    show "onBatchResponse ?mr (errorEvent (streams ! (j - 1))) (stateAfter d entries ?st streams j)
            = MakeNextBatchRequest"
      by (simp add: onBatchResponse_MakeNext)
  next
    show "onBatchResponse ?mr (errorEvent (streams ! (k - 1))) (stateAfter d entries ?st streams k)
            = Callback NoError"
      using assms(6,7,8) by (simp add: onBatchResponse_def)
  qed
  then show ?thesis
    by (simp add: mutate_def)
qed

text \<open>
  C6 as stated fails: \<open>mutate\<close> calls \<open>makeNextBatchRequest\<close> without looking at
  \<open>entries\<close>. With no entries one request with an empty batch has been made, and the
  callback has not been called, before any stream has ended.
\<close>

theorem mutate_empty_makes_a_request:
  "map (requestOf []) (calls (mutate code None ([] :: nat list) ([] :: string batch_stream list)))
     = [\<lparr>currentRetryAttempt = 0, reqEntries = []\<rparr>]
   \<and> callbacks (mutate code None ([] :: nat list) ([] :: string batch_stream list)) = []"
  by code_simp

text \<open>
  C6, amended. With an empty \<open>entries\<close> array \<open>mutate\<close> makes exactly one request,
  with an empty batch, whatever the streams are; when the stream of that request ends
  and has carried no result other than ok, the callback is called with the stream's
  error, or without an error when the stream ended with \<open>end\<close>.
\<close>

theorem mutate_empty_one_request:
  fixes d :: "rpc_status \<Rightarrow> 'd" and streams :: "'x batch_stream list"
  shows "map (requestOf ([] :: 'e list)) (calls (mutate d tmr ([] :: 'e list) streams))
     = [\<lparr>currentRetryAttempt = 0, reqEntries = ([] :: 'e list)\<rparr>]
   \<and> (\<forall>s rest. streams = s # rest \<and> (\<forall>r \<in> set (concat (dataEvents s)). code (status r) = 0) \<longrightarrow>
         callbacks (mutate d tmr ([] :: 'e list) streams)
           = [case errorEvent s of None \<Rightarrow> NoError | Some e \<Rightarrow> StreamError e])"
proof -
  let ?mr = "effectiveMaxRetries tmr"
  let ?st = "initialState ([] :: 'e list) :: ('d, 'e) mutate_state"
  have pend: "pendingEntryIndices (onStream d ([] :: 'e list) ?st s) = {}" for s :: "'x batch_stream"
    using onStream_pending_subset [of d "[]" ?st s] by simp
  have cb: "onBatchResponse ?mr err (onStream d ([] :: 'e list) ?st s)
      = Callback (if mutationErrorsByEntryIndex (onStream d ([] :: 'e list) ?st s) \<noteq> []
                  then PartialFailureError (map snd (mutationErrorsByEntryIndex (onStream d ([] :: 'e list) ?st s)))
                  else (case err of None \<Rightarrow> NoError | Some e \<Rightarrow> StreamError e))"
    for s :: "'x batch_stream" and err
    by (simp add: onBatchResponse_def pend)
  have calls: "calls (makeNextBatchRequest d ?mr ([] :: 'e list) ?st streams) = [?st]"
    by (cases streams) (simp_all add: Let_def cb)
  have req: "map (requestOf ([] :: 'e list)) (calls (mutate d tmr ([] :: 'e list) streams))
     = [\<lparr>currentRetryAttempt = 0, reqEntries = ([] :: 'e list)\<rparr>]"
    by (simp add: mutate_def calls requestOf_def entryBatch_def)
  have ok: "callbacks (mutate d tmr ([] :: 'e list) streams)
           = [case errorEvent s of None \<Rightarrow> NoError | Some e \<Rightarrow> StreamError e]"
    if "streams = s # rest" "\<forall>r \<in> set (concat (dataEvents s)). code (status r) = 0" for s rest
  proof -
    have "mutationErrorsByEntryIndex (onStream d ([] :: 'e list) ?st s) = []"
      using that(2) by (simp add: onStream_errors onResults_all_ok_no_errors)
    with that(1) show ?thesis
      by (simp add: mutate_def Let_def cb)
  qed
  from req ok show ?thesis
    by blast
qed

text \<open>One stream without results that ends with \<open>end\<close>.\<close>

theorem mutate_empty_one_request_witness:
  "map (requestOf []) (calls (mutate code None ([] :: nat list)
      [\<lparr>requestEvents = 1, dataEvents = [], errorEvent = None :: string option\<rparr>]))
     = [\<lparr>currentRetryAttempt = 0, reqEntries = []\<rparr>]
   \<and> callbacks (mutate code None ([] :: nat list)
      [\<lparr>requestEvents = 1, dataEvents = [], errorEvent = None :: string option\<rparr>]) = [NoError]"
  using mutate_empty_one_request [of code None
      "[\<lparr>requestEvents = 1, dataEvents = [], errorEvent = None :: string option\<rparr>]",
      where ?'e = nat]
  by simp

text \<open>
  C10. When \<open>this.maxRetries\<close> is not a number \<open>mutate\<close> uses 3: the call is the
  call with \<open>maxRetries = 3\<close>, and when every stream fires a \<open>request\<close> event at
  most 4 requests are made.
\<close>

theorem default_retry_budget:
  fixes d :: "rpc_status \<Rightarrow> 'd" and entries :: "'e list" and streams :: "'x batch_stream list"
  shows "effectiveMaxRetries None = 3
   \<and> mutate d None entries streams = mutate d (Some 3) entries streams
   \<and> ((\<forall>s \<in> set streams. 1 \<le> requestEvents s) \<longrightarrow>
        length (calls (mutate d None entries streams)) \<le> 4)"
proof -
  have "length (calls (mutate d None entries streams)) \<le> 4"
    if "\<forall>s \<in> set streams. 1 \<le> requestEvents s"
    using run_calls_bound [OF that, of d 3 entries "initialState entries"]
    by (simp add: mutate_def effectiveMaxRetries_def)
  then show ?thesis
    by (simp add: mutate_def effectiveMaxRetries_def)
qed

text \<open>An entry that stays unavailable is sent 4 times, with a fifth stream on offer.\<close>

theorem default_retry_budget_witness:
  "length (calls (mutate code None [10 :: nat]
      (replicate 5 \<lparr>requestEvents = 1, dataEvents = [[entryStatus 0 14]],
                    errorEvent = None :: string option\<rparr>))) = 4"
proof -
  let ?streams = "replicate 5 \<lparr>requestEvents = 1, dataEvents = [[entryStatus 0 14]],
                    errorEvent = None :: string option\<rparr>"
  have "length (calls (mutate code (Some 3) [10 :: nat] ?streams)) = 4"
    by code_simp
  with default_retry_budget [of code "[10 :: nat]" ?streams] show ?thesis
    by simp
qed

section \<open>The engine against the bookkeeping by index\<close>

subsection \<open>One stream\<close>

lemma pendingList_distinct: "distinct (pendingList n P)"
  by (simp add: pendingList_def)

lemma pendingList_set: "set (pendingList n P) = {k. k < n \<and> k \<in> P}"
  by (auto simp: pendingList_def)

lemma pendingList_nth:
  "i < length (pendingList n P) \<Longrightarrow> pendingList n P ! i \<in> P \<and> pendingList n P ! i < n"
  using nth_mem [of i "pendingList n P"] by (simp add: pendingList_set)

lemma entryBatch_pendingList:
  "entryBatch entries P = map ((!) entries) (pendingList (length entries) P)"
  by (simp add: entryBatch_conv pendingList_def)

lemma keyedRecord_update:
  "AList.update (Some j) (errorRecord d entries (j, s)) (map (keyedRecord d entries) al)
     = map (keyedRecord d entries) (AList.update j s al)"
  by (induction al) (auto simp: keyedRecord_def errorRecord_def)

lemma keyedRecord_delete:
  "AList.delete (Some j) (map (keyedRecord d entries) al)
     = map (keyedRecord d entries) (AList.delete j al)"
  by (induction al) (auto simp: keyedRecord_def)


lemma onEntry_by_index:
  assumes "distinct entries"
    and "0 \<le> index r" and "nat (index r) < length (pendingList (length entries) P)"
    and "mutationErrorsByEntryIndex st = map (keyedRecord d entries) A"
  shows "pendingEntryIndices (onEntry d entries (entryBatch entries P) r st)
       = (if leavesPending (pendingList (length entries) P ! nat (index r), status r)
          then pendingEntryIndices st - {pendingList (length entries) P ! nat (index r)}
          else pendingEntryIndices st)"
    and "mutationErrorsByEntryIndex (onEntry d entries (entryBatch entries P) r st)
       = map (keyedRecord d entries)
           (specErrorStep A (pendingList (length entries) P ! nat (index r), status r))"
proof -
  from assms(3) have len: "nat (index r) < length (entryBatch entries P)"
    by (simp add: entryBatch_pendingList)
  note step = onEntry_distinct [OF assms(1,2) len, of d st, unfolded Let_def,
      folded pendingList_def]
  from step show "pendingEntryIndices (onEntry d entries (entryBatch entries P) r st)
       = (if leavesPending (pendingList (length entries) P ! nat (index r), status r)
          then pendingEntryIndices st - {pendingList (length entries) P ! nat (index r)}
          else pendingEntryIndices st)"
    by (auto simp: leavesPending_def RETRY_STATUS_CODES_def)
  from step show "mutationErrorsByEntryIndex (onEntry d entries (entryBatch entries P) r st)
       = map (keyedRecord d entries)
           (specErrorStep A (pendingList (length entries) P ! nat (index r), status r))"
    using keyedRecord_update [of "pendingList (length entries) P ! nat (index r)" d entries "status r" A]
      keyedRecord_delete [of "pendingList (length entries) P ! nat (index r)" d entries A]
    by (auto simp: specErrorStep_def assms(4) errorRecord_def)
qed

text \<open>
  For pairwise distinct entry objects and a stream that names positions of its batch,
  the pending set after the stream is the pending set before it without the indices that
  got an ok or a non-retryable status, and the errors are the errors by index.
\<close>

lemma onResults_by_index:
  assumes "distinct entries"
    and "\<forall>r \<in> set rs. 0 \<le> index r \<and> nat (index r) < length (pendingList (length entries) P)"
    and "mutationErrorsByEntryIndex st = map (keyedRecord d entries) A"
  shows "pendingEntryIndices (onResults d entries (entryBatch entries P) rs st)
       = pendingEntryIndices st
         - set (map fst (filter leavesPending
             (map (\<lambda>r. (pendingList (length entries) P ! nat (index r), status r)) rs)))
     \<and> mutationErrorsByEntryIndex (onResults d entries (entryBatch entries P) rs st)
       = map (keyedRecord d entries)
           (foldl specErrorStep A
             (map (\<lambda>r. (pendingList (length entries) P ! nat (index r), status r)) rs))"
  using assms(2,3)
proof (induction rs arbitrary: st A)
  case Nil
  then show ?case by simp
next
  case (Cons r rs)
  let ?x = "(pendingList (length entries) P ! nat (index r), status r)"
  let ?st' = "onEntry d entries (entryBatch entries P) r st"
  from Cons.prems(1) have r: "0 \<le> index r" "nat (index r) < length (pendingList (length entries) P)"
    and rs: "\<forall>r \<in> set rs. 0 \<le> index r \<and> nat (index r) < length (pendingList (length entries) P)"
    by simp_all
  note one = onEntry_by_index [OF assms(1) r Cons.prems(2)]
  from Cons.IH [OF rs one(2)] one(1) show ?case
    by auto
qed

lemma onStream_by_index:
  assumes "distinct entries"
    and "wellReportedStream (length entries) (pendingEntryIndices st) s"
    and "mutationErrorsByEntryIndex st = map (keyedRecord d entries) A"
  shows "pendingEntryIndices (onStream d entries st s)
       = specPendingAfterStream (length entries) (pendingEntryIndices st) s"
    and "mutationErrorsByEntryIndex (onStream d entries st s)
       = map (keyedRecord d entries)
           (foldl specErrorStep A (resolved (length entries) (pendingEntryIndices st) s))"
proof -
  from assms(2) have inb: "\<forall>r \<in> set (concat (dataEvents s)). 0 \<le> index r
      \<and> nat (index r) < length (pendingList (length entries) (pendingEntryIndices st))"
    by (simp add: wellReportedStream_def)
  note both = onResults_by_index [OF assms(1) inb assms(3)]
  from both show "pendingEntryIndices (onStream d entries st s)
       = specPendingAfterStream (length entries) (pendingEntryIndices st) s"
    by (simp add: onStream_pending specPendingAfterStream_def resolved_def)
  from both show "mutationErrorsByEntryIndex (onStream d entries st s)
       = map (keyedRecord d entries)
           (foldl specErrorStep A (resolved (length entries) (pendingEntryIndices st) s))"
    by (simp add: onStream_errors resolved_def)
qed

lemma streams_by_index:
  assumes "distinct entries"
  shows "wellReported (length entries) (pendingEntryIndices st) streams \<Longrightarrow>
     mutationErrorsByEntryIndex st = map (keyedRecord d entries) A \<Longrightarrow>
     pendingEntryIndices (foldl (onStream d entries) st streams)
       = specPendingAfter (length entries) (pendingEntryIndices st) streams
     \<and> mutationErrorsByEntryIndex (foldl (onStream d entries) st streams)
       = map (keyedRecord d entries)
           (foldl specErrorStep A (resolvedTrace (length entries) (pendingEntryIndices st) streams))"
proof (induction streams arbitrary: st A)
  case Nil
  then show ?case by simp
next
  case (Cons s streams)
  from Cons.prems(1) have s: "wellReportedStream (length entries) (pendingEntryIndices st) s"
    and ss: "wellReported (length entries)
        (specPendingAfterStream (length entries) (pendingEntryIndices st) s) streams"
    by simp_all
  note one = onStream_by_index [OF assms s Cons.prems(2)]
  from ss one(1) have ss': "wellReported (length entries)
        (pendingEntryIndices (onStream d entries st s)) streams"
    by simp
  from Cons.IH [OF ss' one(2)] one(1) show ?case
    by simp
qed

lemma stateAfter_by_index:
  assumes "distinct entries"
    and "wellReported (length entries) {0..<length entries} (take k streams)"
  shows "pendingEntryIndices (stateAfter d entries (initialState entries) streams k)
       = specPendingAfter (length entries) {0..<length entries} (take k streams)"
    and "mutationErrorsByEntryIndex (stateAfter d entries (initialState entries) streams k)
       = map (keyedRecord d entries)
           (specErrorsByIndex (resolvedTrace (length entries) {0..<length entries} (take k streams)))"
  using streams_by_index [OF assms(1), of "initialState entries" "take k streams" d "[]"] assms(2)
  by (simp_all add: stateAfter_def specErrorsByIndex_def)

subsection \<open>The results of a call\<close>

lemma resolvedTrace_append:
  "resolvedTrace n P (A @ B) = resolvedTrace n P A @ resolvedTrace n (specPendingAfter n P A) B"
  by (induction A arbitrary: P) simp_all

lemma pendingAfter_append:
  "specPendingAfter n P (A @ B) = specPendingAfter n (specPendingAfter n P A) B"
  by (induction A arbitrary: P) simp_all

lemma wellReported_append:
  "wellReported n P (A @ B) \<longleftrightarrow> wellReported n P A \<and> wellReported n (specPendingAfter n P A) B"
  by (induction A arbitrary: P) auto

lemma pendingAfterStream_subset: "specPendingAfterStream n P s \<subseteq> P"
  by (auto simp: specPendingAfterStream_def)

lemma pendingAfter_subset: "specPendingAfter n P ss \<subseteq> P"
proof (induction ss arbitrary: P)
  case Nil
  show ?case by simp
next
  case (Cons s ss)
  from Cons.IH [of "specPendingAfterStream n P s"] pendingAfterStream_subset [of n P s]
  show ?case by auto
qed

lemma pendingAfter_conv:
  "specPendingAfter n P ss = P - set (map fst (filter leavesPending (resolvedTrace n P ss)))"
proof (induction ss arbitrary: P)
  case Nil
  show ?case by simp
next
  case (Cons s ss)
  show ?case
    unfolding specPendingAfter.simps resolvedTrace.simps Cons.IH
    by (auto simp: specPendingAfterStream_def)
qed

lemma resolved_in_pending:
  assumes "wellReportedStream n P s" and "x \<in> set (resolved n P s)"
  shows "fst x \<in> P \<and> fst x < n"
  using assms pendingList_nth [of _ n P]
  by (auto simp: wellReportedStream_def resolved_def)

lemma resolvedTrace_in_pending:
  "wellReported n P ss \<Longrightarrow> x \<in> set (resolvedTrace n P ss) \<Longrightarrow> fst x \<in> P \<and> fst x < n"
proof (induction ss arbitrary: P)
  case Nil
  then show ?case by simp
next
  case (Cons s ss)
  from Cons.prems(2) consider "x \<in> set (resolved n P s)"
    | "x \<in> set (resolvedTrace n (specPendingAfterStream n P s) ss)"
    by auto
  then show ?case
  proof cases
    case 1
    with Cons.prems(1) show ?thesis
      using resolved_in_pending by fastforce
  next
    case 2
    with Cons.prems(1) Cons.IH [of "specPendingAfterStream n P s"] pendingAfterStream_subset [of n P s]
    show ?thesis by auto
  qed
qed

lemma resolved_distinct:
  assumes "wellReportedStream n P s"
  shows "distinct (map fst (resolved n P s))"
proof -
  let ?rs = "concat (dataEvents s)"
  from assms have inb: "\<forall>r \<in> set ?rs. 0 \<le> index r \<and> nat (index r) < length (pendingList n P)"
    and d: "distinct (map index ?rs)"
    by (simp_all add: wellReportedStream_def)
  have "inj_on (\<lambda>r. pendingList n P ! nat (index r)) (set ?rs)"
  proof (rule inj_onI)
    fix a b assume ab: "a \<in> set ?rs" "b \<in> set ?rs"
      and eq: "pendingList n P ! nat (index a) = pendingList n P ! nat (index b)"
    from inb ab have la: "0 \<le> index a" "nat (index a) < length (pendingList n P)"
      and lb: "0 \<le> index b" "nat (index b) < length (pendingList n P)"
      by blast+
    from eq la(2) lb(2) have "nat (index a) = nat (index b)"
      using nth_eq_iff_index_eq [OF pendingList_distinct] by blast
    with la(1) lb(1) have "index a = index b" by simp
    with d ab show "a = b"
      by (meson distinct_map inj_onD)
  qed
  moreover from d have "distinct ?rs"
    by (simp add: distinct_map)
  ultimately show ?thesis
    by (simp add: resolved_def distinct_map comp_def)
qed

lemma noneAfterOk_distinct: "distinct (map fst T) \<Longrightarrow> noneAfterOk T"
  by (induction T) auto

lemma noneAfterOk_append:
  "noneAfterOk (A @ B) \<longleftrightarrow>
     noneAfterOk A \<and> noneAfterOk B \<and> (\<forall>x \<in> set A. code (snd x) = 0 \<longrightarrow> fst x \<notin> fst ` set B)"
  by (induction A) auto

lemma noneAfterOk_snoc:
  "noneAfterOk (T @ [x]) \<longleftrightarrow> noneAfterOk T \<and> \<not> reportedOk T (fst x)"
  by (auto simp: noneAfterOk_append reportedOk_def)

lemma resolvedTrace_noneAfterOk:
  "wellReported n P ss \<Longrightarrow> noneAfterOk (resolvedTrace n P ss)"
proof (induction ss arbitrary: P)
  case Nil
  show ?case by simp
next
  case (Cons s ss)
  let ?P' = "specPendingAfterStream n P s"
  from Cons.prems have s: "wellReportedStream n P s" and ss: "wellReported n ?P' ss"
    by simp_all
  have a: "noneAfterOk (resolved n P s)"
    using resolved_distinct [OF s] by (rule noneAfterOk_distinct)
  have b: "noneAfterOk (resolvedTrace n ?P' ss)"
    using ss by (rule Cons.IH)
  have c: "fst x \<notin> fst ` set (resolvedTrace n ?P' ss)"
    if "x \<in> set (resolved n P s)" "code (snd x) = 0" for x
  proof
    assume "fst x \<in> fst ` set (resolvedTrace n ?P' ss)"
    then obtain y where "y \<in> set (resolvedTrace n ?P' ss)" "fst y = fst x"
      by auto
    with resolvedTrace_in_pending [OF ss] have "fst x \<in> ?P'"
      by metis
    moreover from that have "fst x \<in> set (map fst (filter leavesPending (resolved n P s)))"
      by (auto simp: leavesPending_def)
    ultimately show False
      by (simp add: specPendingAfterStream_def)
  qed
  from a b c show ?case
    by (simp add: noneAfterOk_append)
qed

subsection \<open>The errors by index, read off the results\<close>

lemma indexErrors_snoc: "specErrorsByIndex (T @ [x]) = specErrorStep (specErrorsByIndex T) x"
  by (simp add: specErrorsByIndex_def)

lemma indexErrors_Nil [simp]: "specErrorsByIndex [] = []"
  by (simp add: specErrorsByIndex_def)

lemma indexErrors_distinct: "distinct (map fst (specErrorsByIndex T))"
  by (induction T rule: rev_induct)
    (simp_all add: indexErrors_snoc specErrorStep_def distinct_update distinct_delete)

lemma lastStatus_snoc:
  "lastStatus (T @ [x]) i = (if fst x = i then Some (snd x) else lastStatus T i)"
  by (induction T) (auto split: option.splits)

lemma indexErrors_map_of:
  "map_of (specErrorsByIndex T) j =
     (case lastStatus T j of
        None \<Rightarrow> None
      | Some s \<Rightarrow> if code s = 0 then None else Some s)"
proof (induction T rule: rev_induct)
  case Nil
  show ?case by simp
next
  case (snoc x T)
  then show ?case
    by (simp add: indexErrors_snoc specErrorStep_def lastStatus_snoc update_conv' delete_conv')
qed

lemma indexErrors_last:
  "(j, s) \<in> set (specErrorsByIndex T) \<Longrightarrow> lastStatus T j = Some s \<and> code s \<noteq> 0"
proof -
  assume "(j, s) \<in> set (specErrorsByIndex T)"
  with indexErrors_distinct [of T] have "map_of (specErrorsByIndex T) j = Some s"
    by simp
  then show ?thesis
    by (simp add: indexErrors_map_of split: option.splits if_splits)
qed

lemma firstOccurrences_snoc:
  "firstOccurrences (xs @ [x]) = (if x \<in> set xs then firstOccurrences xs else firstOccurrences xs @ [x])"
  by (simp add: firstOccurrences_def)

lemma firstOccurrences_Nil [simp]: "firstOccurrences [] = []"
  by (simp add: firstOccurrences_def)

lemma firstOccurrences_set [simp]: "set (firstOccurrences xs) = set xs"
  by (simp add: firstOccurrences_def)

lemma reportedOk_snoc:
  "reportedOk (T @ [x]) i \<longleftrightarrow> reportedOk T i \<or> (fst x = i \<and> code (snd x) = 0)"
  by (auto simp: reportedOk_def)

lemma map_fst_update:
  "map fst (AList.update k v al) = (if k \<in> fst ` set al then map fst al else map fst al @ [k])"
  by (induction al) auto

lemma map_fst_delete:
  "map fst (AList.delete k al) = filter (\<lambda>k'. k' \<noteq> k) (map fst al)"
  by (induction al) auto

lemma failedNeverOk_set:
  "set (failedNeverOk T) = {j. j \<in> fst ` {x \<in> set T. code (snd x) \<noteq> 0} \<and> \<not> reportedOk T j}"
  by (auto simp: failedNeverOk_def)

lemma indexErrors_keys:
  "noneAfterOk T \<Longrightarrow> map fst (specErrorsByIndex T) = failedNeverOk T"
proof (induction T rule: rev_induct)
  case Nil
  show ?case by (simp add: failedNeverOk_def)
next
  case (snoc x T)
  from snoc.prems have T: "noneAfterOk T" and nok: "\<not> reportedOk T (fst x)"
    by (simp_all add: noneAfterOk_snoc)
  note ih = snoc.IH [OF T]
  show ?case
  proof (cases "code (snd x) = 0")
    case True
    have "failedNeverOk (T @ [x]) = filter (\<lambda>k'. k' \<noteq> fst x) (failedNeverOk T)"
      using True by (auto simp: failedNeverOk_def reportedOk_snoc intro: filter_cong)
    with True ih show ?thesis
      by (simp add: indexErrors_snoc specErrorStep_def map_fst_delete)
  next
    case False
    let ?f = "map fst (filter (\<lambda>x. code (snd x) \<noteq> 0) T)"
    have ok: "reportedOk (T @ [x]) = reportedOk T"
      using False by (auto simp: reportedOk_snoc fun_eq_iff)
    have mem: "fst x \<in> fst ` set (specErrorsByIndex T) \<longleftrightarrow> fst x \<in> set ?f"
      using nok by (simp add: ih [symmetric, simplified] failedNeverOk_set
          set_map [symmetric] del: set_map) (auto simp: ih failedNeverOk_set)
    have "failedNeverOk (T @ [x])
        = (if fst x \<in> set ?f then failedNeverOk T else failedNeverOk T @ [fst x])"
      using False nok by (simp add: failedNeverOk_def ok firstOccurrences_snoc)
    with False ih mem show ?thesis
      by (simp add: indexErrors_snoc specErrorStep_def map_fst_update)
  qed
qed

lemma run_final_stateAfter:
  "finalState (makeNextBatchRequest d mr entries st streams)
     = stateAfter d entries st streams
         (if callbacks (makeNextBatchRequest d mr entries st streams) = []
          then length (calls (makeNextBatchRequest d mr entries st streams)) - 1
          else length (calls (makeNextBatchRequest d mr entries st streams)))"
proof (induction streams arbitrary: st)
  case Nil
  show ?case by simp
next
  case (Cons s streams)
  show ?case
  proof (cases "onBatchResponse mr (errorEvent s) (onStream d entries st s)")
    case MakeNextBatchRequest
    with Cons.IH [of "onStream d entries st s"]
      run_calls_nonempty [of d mr entries "onStream d entries st s" streams]
    show ?thesis
      by (cases "calls (makeNextBatchRequest d mr entries (onStream d entries st s) streams)")
        (simp_all add: Let_def)
  next
    case (Callback cb)
    then show ?thesis by (simp add: Let_def)
  qed
qed

lemma failedNeverOk_empty:
  "(\<And>x. x \<in> set T \<Longrightarrow> reportedOk T (fst x)) \<Longrightarrow> failedNeverOk T = []"
proof -
  assume "\<And>x. x \<in> set T \<Longrightarrow> reportedOk T (fst x)"
  then have "set (failedNeverOk T) = {}"
    unfolding failedNeverOk_set by auto
  then show ?thesis by simp
qed

subsection \<open>The pending set\<close>

text \<open>
  C2 fails on the code when one entry object occurs twice in \<open>entries\<close>, by the defect
  of C1 and C4. The only result of the first stream is ok for position 0. Index 1, which
  got no result, leaves the pending set, index 0 stays, and the second batch holds the
  object again, which is the entry of the index that has left.
\<close>

theorem same_object_twice_wrong_index_leaves:
  "map pendingEntryIndices (calls (mutate code (Some 1) [7 :: nat, 7]
      [\<lparr>requestEvents = 1, dataEvents = [[entryStatus 0 0]], errorEvent = None :: string option\<rparr>]))
    = [{0, 1}, {0}]
   \<and> map (\<lambda>st. reqEntries (requestOf [7 :: nat, 7] st)) (calls (mutate code (Some 1) [7 :: nat, 7]
      [\<lparr>requestEvents = 1, dataEvents = [[entryStatus 0 0]], errorEvent = None :: string option\<rparr>]))
    = [[7, 7], [7]]"
proof -
  have c1: "map pendingEntryIndices (calls (mutate code (Some 1) [7 :: nat, 7]
      [\<lparr>requestEvents = 1, dataEvents = [[entryStatus 0 0]], errorEvent = None :: string option\<rparr>]))
    = [{0, 1}, {0}]"
    by code_simp
  have c2: "map (\<lambda>st. reqEntries (requestOf [7 :: nat, 7] st)) (calls (mutate code (Some 1) [7 :: nat, 7]
      [\<lparr>requestEvents = 1, dataEvents = [[entryStatus 0 0]], errorEvent = None :: string option\<rparr>]))
    = [[7, 7], [7]]"
    by code_simp
  from c1 c2 show ?thesis
    by (intro conjI)
qed

subsection \<open>The argument of the callback\<close>

text \<open>
  C3 as stated fails in these ways, in this order below. The errors are listed in the
  order of the map, not of the indices: results arriving as index 1, then index 0, give
  the error of the second entry first; the callback receives the values of the map
  without its keys, so no record carries an index; the same order comes from results in
  index order when the first stream breaks off early. An entry that never got a result
  never reached ok and is not listed (index 2 is still pending at the end). With no
  error recorded and a stream that ended with \<open>error\<close> the callback receives that
  error, not a plain success. A position reported twice, ok and then unavailable, lists
  an entry that did reach ok, and a result outside the batch gives a record without an
  entry. The last input is the defect of C1 and C4: one object twice, both positions
  failing, one record.
\<close>

theorem partial_failure_differs_from_claim:
  "callbacks (mutate code (Some 0) [10 :: nat, 11]
      [\<lparr>requestEvents = 1, dataEvents = [[entryStatus 1 14, entryStatus 0 14]],
        errorEvent = None :: string option\<rparr>])
    = [PartialFailureError [\<lparr>errStatus = 14, errEntry = Some 11\<rparr>,
                            \<lparr>errStatus = 14, errEntry = Some 10\<rparr>]]
   \<and> mutationErrorsByEntryIndex (finalState (mutate code (Some 0) [10 :: nat, 11]
      [\<lparr>requestEvents = 1, dataEvents = [[entryStatus 1 14, entryStatus 0 14]],
        errorEvent = None :: string option\<rparr>]))
    = [(Some 1, \<lparr>errStatus = 14, errEntry = Some 11\<rparr>),
       (Some 0, \<lparr>errStatus = 14, errEntry = Some 10\<rparr>)]
   \<and> callbacks (mutate code (Some 1) [10 :: nat, 11]
      [\<lparr>requestEvents = 1, dataEvents = [[entryStatus 1 14]],
        errorEvent = Some ''reset''\<rparr>,
       \<lparr>requestEvents = 1, dataEvents = [[entryStatus 0 14, entryStatus 1 14]],
        errorEvent = None\<rparr>])
    = [PartialFailureError [\<lparr>errStatus = 14, errEntry = Some 11\<rparr>,
                            \<lparr>errStatus = 14, errEntry = Some 10\<rparr>]]
   \<and> callbacks (mutate code (Some 0) [10 :: nat, 11, 12]
      [\<lparr>requestEvents = 1, dataEvents = [[entryStatus 0 0, entryStatus 1 7]],
        errorEvent = Some ''reset''\<rparr>])
    = [PartialFailureError [\<lparr>errStatus = 7, errEntry = Some 11\<rparr>]]
   \<and> pendingEntryIndices (finalState (mutate code (Some 0) [10 :: nat, 11, 12]
      [\<lparr>requestEvents = 1, dataEvents = [[entryStatus 0 0, entryStatus 1 7]],
        errorEvent = Some ''reset''\<rparr>])) = {2}
   \<and> callbacks (mutate code (Some 0) [10 :: nat]
      [\<lparr>requestEvents = 1, dataEvents = [], errorEvent = Some ''reset''\<rparr>])
    = [StreamError ''reset'']
   \<and> callbacks (mutate code (Some 0) [10 :: nat]
      [\<lparr>requestEvents = 1, dataEvents = [[entryStatus 0 0, entryStatus 0 14]],
        errorEvent = None :: string option\<rparr>])
    = [PartialFailureError [\<lparr>errStatus = 14, errEntry = Some 10\<rparr>]]
   \<and> callbacks (mutate code (Some 0) [10 :: nat]
      [\<lparr>requestEvents = 1, dataEvents = [[entryStatus 0 0, entryStatus 3 14]],
        errorEvent = None :: string option\<rparr>])
    = [PartialFailureError [\<lparr>errStatus = 14, errEntry = None\<rparr>]]
   \<and> callbacks (mutate code (Some 0) [7 :: nat, 7]
      [\<lparr>requestEvents = 1, dataEvents = [[entryStatus 0 5, entryStatus 1 5]],
        errorEvent = None :: string option\<rparr>])
    = [PartialFailureError [\<lparr>errStatus = 5, errEntry = Some 7\<rparr>]]"
proof -
  have c1: "callbacks (mutate code (Some 0) [10 :: nat, 11]
      [\<lparr>requestEvents = 1, dataEvents = [[entryStatus 1 14, entryStatus 0 14]],
        errorEvent = None :: string option\<rparr>])
    = [PartialFailureError [\<lparr>errStatus = 14, errEntry = Some 11\<rparr>,
                            \<lparr>errStatus = 14, errEntry = Some 10\<rparr>]]"
    by code_simp
  have c2: "mutationErrorsByEntryIndex (finalState (mutate code (Some 0) [10 :: nat, 11]
      [\<lparr>requestEvents = 1, dataEvents = [[entryStatus 1 14, entryStatus 0 14]],
        errorEvent = None :: string option\<rparr>]))
    = [(Some 1, \<lparr>errStatus = 14, errEntry = Some 11\<rparr>),
       (Some 0, \<lparr>errStatus = 14, errEntry = Some 10\<rparr>)]"
    by code_simp
  have c3: "callbacks (mutate code (Some 1) [10 :: nat, 11]
      [\<lparr>requestEvents = 1, dataEvents = [[entryStatus 1 14]],
        errorEvent = Some ''reset''\<rparr>,
       \<lparr>requestEvents = 1, dataEvents = [[entryStatus 0 14, entryStatus 1 14]],
        errorEvent = None\<rparr>])
    = [PartialFailureError [\<lparr>errStatus = 14, errEntry = Some 11\<rparr>,
                            \<lparr>errStatus = 14, errEntry = Some 10\<rparr>]]"
    by code_simp
  have c4: "callbacks (mutate code (Some 0) [10 :: nat, 11, 12]
      [\<lparr>requestEvents = 1, dataEvents = [[entryStatus 0 0, entryStatus 1 7]],
        errorEvent = Some ''reset''\<rparr>])
    = [PartialFailureError [\<lparr>errStatus = 7, errEntry = Some 11\<rparr>]]"
    by code_simp
  have c5: "pendingEntryIndices (finalState (mutate code (Some 0) [10 :: nat, 11, 12]
      [\<lparr>requestEvents = 1, dataEvents = [[entryStatus 0 0, entryStatus 1 7]],
        errorEvent = Some ''reset''\<rparr>])) = {2}"
    by code_simp
  have c6: "callbacks (mutate code (Some 0) [10 :: nat]
      [\<lparr>requestEvents = 1, dataEvents = [], errorEvent = Some ''reset''\<rparr>])
    = [StreamError ''reset'']"
    by code_simp
  have c7: "callbacks (mutate code (Some 0) [10 :: nat]
      [\<lparr>requestEvents = 1, dataEvents = [[entryStatus 0 0, entryStatus 0 14]],
        errorEvent = None :: string option\<rparr>])
    = [PartialFailureError [\<lparr>errStatus = 14, errEntry = Some 10\<rparr>]]"
    by code_simp
  have c8: "callbacks (mutate code (Some 0) [10 :: nat]
      [\<lparr>requestEvents = 1, dataEvents = [[entryStatus 0 0, entryStatus 3 14]],
        errorEvent = None :: string option\<rparr>])
    = [PartialFailureError [\<lparr>errStatus = 14, errEntry = None\<rparr>]]"
    by code_simp
  have c9: "callbacks (mutate code (Some 0) [7 :: nat, 7]
      [\<lparr>requestEvents = 1, dataEvents = [[entryStatus 0 5, entryStatus 1 5]],
        errorEvent = None :: string option\<rparr>])
    = [PartialFailureError [\<lparr>errStatus = 5, errEntry = Some 7\<rparr>]]"
    by code_simp
  from c1 c2 c3 c4 c5 c6 c7 c8 c9 show ?thesis
    by (intro conjI)
qed

text \<open>
  C3, amended. Take pairwise distinct entry objects and streams that name positions of
  their batch only, each at most once. The callback is called at most once, and exactly
  once when every stream fires a \<open>request\<close> event and there are more streams than
  \<open>maxRetries\<close>. With \<open>T\<close> the results of the attempts made, by original index:
  if some entry got a failed result and never an ok, the argument is one
  \<open>PartialFailureError\<close> with one record of status and entry, and no index, for every
  such entry, in the order in which these entries got their first failed result, each
  with the status of the last result of its entry; an entry without any result is not
  listed. Otherwise the argument is the error of the last stream if that stream ended
  with \<open>error\<close>, and \<open>undefined\<close>, a plain success, if it ended with \<open>end\<close>.
\<close>

theorem partial_failure_from_results:
  fixes d :: "rpc_status \<Rightarrow> 'd" and entries :: "'e list" and streams :: "'x batch_stream list"
  assumes "distinct entries"
    and "wellReported (length entries) {0..<length entries}
           (take (length (calls (mutate d tmr entries streams))) streams)"
  shows "(callbacks (mutate d tmr entries streams) = []
          \<or> (\<exists>cb. callbacks (mutate d tmr entries streams) = [cb]))
     \<and> (streams \<noteq> [] \<and> (\<forall>s \<in> set streams. 1 \<le> requestEvents s)
          \<and> effectiveMaxRetries tmr < int (length streams) \<longrightarrow>
         (\<exists>cb. callbacks (mutate d tmr entries streams) = [cb]))
     \<and> (let T = resolvedTrace (length entries) {0..<length entries}
                  (take (length (calls (mutate d tmr entries streams))) streams)
        in (\<forall>cb. callbacks (mutate d tmr entries streams) = [cb] \<longrightarrow>
              cb = (if specErrorsByIndex T = []
                    then (case errorEvent
                                 (streams ! (length (calls (mutate d tmr entries streams)) - 1)) of
                            None \<Rightarrow> NoError
                          | Some e \<Rightarrow> StreamError e)
                    else PartialFailureError (map (errorRecord d entries) (specErrorsByIndex T))))
         \<and> map fst (specErrorsByIndex T) = failedNeverOk T
         \<and> (\<forall>(j, s) \<in> set (specErrorsByIndex T). j < length entries \<and> lastStatus T j = Some s))"
proof -
  let ?mr = "effectiveMaxRetries tmr"
  let ?n = "length entries"
  let ?st = "initialState entries :: ('d, 'e) mutate_state"
  let ?r = "makeNextBatchRequest d ?mr entries ?st streams"
  let ?m = "length (calls ?r)"
  let ?T = "resolvedTrace ?n {0..<?n} (take ?m streams)"
  have r: "mutate d tmr entries streams = ?r"
    by (simp add: mutate_def)
  from assms(2) have wf: "wellReported ?n {0..<?n} (take ?m streams)"
    by (simp add: r)
  have once: "callbacks ?r = [] \<or> (\<exists>cb. callbacks ?r = [cb])"
    using run_callbacks_length [of d ?mr entries ?st streams]
    by (cases "callbacks ?r") (simp_all add: length_Suc_conv)
  have fin: "streams \<noteq> [] \<and> (\<forall>s \<in> set streams. 1 \<le> requestEvents s)
        \<and> ?mr < int (length streams) \<longrightarrow> (\<exists>cb. callbacks ?r = [cb])"
  proof (intro impI, elim conjE)
    assume "streams \<noteq> []" "\<forall>s \<in> set streams. 1 \<le> requestEvents s" "?mr < int (length streams)"
    then show "\<exists>cb. callbacks ?r = [cb]"
      by (intro run_terminates) simp_all
  qed
  have val: "cb = (if specErrorsByIndex ?T = []
                    then (case errorEvent (streams ! (?m - 1)) of
                            None \<Rightarrow> NoError
                          | Some e \<Rightarrow> StreamError e)
                    else PartialFailureError (map (errorRecord d entries) (specErrorsByIndex ?T)))"
    if cb: "callbacks ?r = [cb]" for cb
  proof -
    from cb have "finalState ?r = stateAfter d entries ?st streams ?m"
      using run_final_stateAfter [of d ?mr entries ?st streams] by simp
    then have errs: "mutationErrorsByEntryIndex (finalState ?r)
        = map (keyedRecord d entries) (specErrorsByIndex ?T)"
      using stateAfter_by_index(2) [OF assms(1) wf] by simp
    have "map snd (map (keyedRecord d entries) (specErrorsByIndex ?T))
        = map (errorRecord d entries) (specErrorsByIndex ?T)"
      by (simp add: keyedRecord_def comp_def)
    with run_callback_value [OF cb] errs show ?thesis
      by (simp add: Let_def)
  qed
  have keys: "map fst (specErrorsByIndex ?T) = failedNeverOk ?T"
    using wf by (intro indexErrors_keys resolvedTrace_noneAfterOk)
  have last: "\<forall>(j, s) \<in> set (specErrorsByIndex ?T). j < ?n \<and> lastStatus ?T j = Some s"
  proof (intro ballI, clarify)
    fix j s assume js: "(j, s) \<in> set (specErrorsByIndex ?T)"
    then have l: "lastStatus ?T j = Some s"
      using indexErrors_last by blast
    from js have "j \<in> set (map fst (specErrorsByIndex ?T))"
      by force
    then have "j \<in> set (failedNeverOk ?T)"
      by (simp only: keys)
    then obtain x where "x \<in> set ?T" "fst x = j"
      by (auto simp: failedNeverOk_set)
    with resolvedTrace_in_pending [OF wf] have "j < ?n"
      by blast
    with l show "j < ?n \<and> lastStatus ?T j = Some s"
      by simp
  qed
  have "\<forall>cb. callbacks ?r = [cb] \<longrightarrow>
              cb = (if specErrorsByIndex ?T = []
                    then (case errorEvent (streams ! (?m - 1)) of
                            None \<Rightarrow> NoError
                          | Some e \<Rightarrow> StreamError e)
                    else PartialFailureError (map (errorRecord d entries) (specErrorsByIndex ?T)))"
    using val by (intro allI impI)
  with keys last have third: "(\<forall>cb. callbacks ?r = [cb] \<longrightarrow>
              cb = (if specErrorsByIndex ?T = []
                    then (case errorEvent (streams ! (?m - 1)) of
                            None \<Rightarrow> NoError
                          | Some e \<Rightarrow> StreamError e)
                    else PartialFailureError (map (errorRecord d entries) (specErrorsByIndex ?T))))
         \<and> map fst (specErrorsByIndex ?T) = failedNeverOk ?T
         \<and> (\<forall>(j, s) \<in> set (specErrorsByIndex ?T). j < ?n \<and> lastStatus ?T j = Some s)"
    by (intro conjI)
  from third have t1: "\<forall>cb. callbacks ?r = [cb] \<longrightarrow>
              cb = (if specErrorsByIndex ?T = []
                    then (case errorEvent (streams ! (?m - 1)) of
                            None \<Rightarrow> NoError
                          | Some e \<Rightarrow> StreamError e)
                    else PartialFailureError (map (errorRecord d entries) (specErrorsByIndex ?T)))"
    by (rule conjunct1)
  show ?thesis
    unfolding r Let_def
    apply (rule conjI)
     apply (rule once)
    apply (rule conjI)
     apply (rule fin)
    apply (rule conjI)
     apply (rule t1)
    apply (rule conjI)
     apply (rule keys)
    apply (rule last)
    done
qed

text \<open>Three entries and two attempts: index 2 fails first, then index 0, index 1 is ok;
  in the second attempt index 0 stays unavailable and index 2 fails for good. The
  errors are those of index 2 and index 0, in this order, with their last statuses.\<close>

theorem partial_failure_from_results_witness:
  "callbacks (mutate code (Some 1) [10 :: nat, 11, 12]
      [\<lparr>requestEvents = 1, dataEvents = [[entryStatus 2 14, entryStatus 0 14, entryStatus 1 0]],
        errorEvent = None :: string option\<rparr>,
       \<lparr>requestEvents = 1, dataEvents = [[entryStatus 0 14, entryStatus 1 7]], errorEvent = None\<rparr>])
    = [PartialFailureError [\<lparr>errStatus = 7, errEntry = Some 12\<rparr>,
                            \<lparr>errStatus = 14, errEntry = Some 10\<rparr>]]
   \<and> failedNeverOk (resolvedTrace 3 {0..<3}
      [\<lparr>requestEvents = 1, dataEvents = [[entryStatus 2 14, entryStatus 0 14, entryStatus 1 0]],
        errorEvent = None :: string option\<rparr>,
       \<lparr>requestEvents = 1, dataEvents = [[entryStatus 0 14, entryStatus 1 7]], errorEvent = None\<rparr>])
    = [2, 0]
   \<and> mutationErrorsByEntryIndex (finalState (mutate code (Some 1) [10 :: nat, 11, 12]
      [\<lparr>requestEvents = 1, dataEvents = [[entryStatus 2 14, entryStatus 0 14, entryStatus 1 0]],
        errorEvent = None :: string option\<rparr>,
       \<lparr>requestEvents = 1, dataEvents = [[entryStatus 0 14, entryStatus 1 7]], errorEvent = None\<rparr>]))
    = [(Some 2, \<lparr>errStatus = 7, errEntry = Some 12\<rparr>),
       (Some 0, \<lparr>errStatus = 14, errEntry = Some 10\<rparr>)]"
proof -
  let ?streams = "[\<lparr>requestEvents = 1, dataEvents = [[entryStatus 2 14, entryStatus 0 14, entryStatus 1 0]],
        errorEvent = None :: string option\<rparr>,
       \<lparr>requestEvents = 1, dataEvents = [[entryStatus 0 14, entryStatus 1 7]], errorEvent = None\<rparr>]"
  let ?entries = "[10 :: nat, 11, 12]"
  let ?r = "mutate code (Some 1) ?entries ?streams"
  let ?T = "resolvedTrace (length ?entries) {0..<length ?entries} ?streams"
  have len: "length (calls ?r) = 2"
    by code_simp
  have d: "distinct ?entries"
    by simp
  have wf: "wellReported (length ?entries) {0..<length ?entries} (take (length (calls ?r)) ?streams)"
    unfolding len by code_simp
  have ie: "specErrorsByIndex ?T = [(2, \<lparr>code = 7, message = []\<rparr>), (0, \<lparr>code = 14, message = []\<rparr>)]"
    by code_simp
  have fo: "failedNeverOk (resolvedTrace 3 {0..<3} ?streams) = [2, 0]"
    by code_simp
  have hyp: "?streams \<noteq> [] \<and> (\<forall>s \<in> set ?streams. 1 \<le> requestEvents s)
      \<and> effectiveMaxRetries (Some 1) < int (length ?streams)"
    by (simp add: effectiveMaxRetries_def)
  have tk: "take (length (calls ?r)) ?streams = ?streams"
    unfolding len by simp
  note th = partial_failure_from_results [OF d wf, unfolded Let_def]
  from th [THEN conjunct2, THEN conjunct1] hyp obtain cb where cb: "callbacks ?r = [cb]"
    by blast
  from th [THEN conjunct2, THEN conjunct2, THEN conjunct1, rule_format, OF cb]
  have "cb = PartialFailureError [\<lparr>errStatus = 7, errEntry = Some 12\<rparr>,
                            \<lparr>errStatus = 14, errEntry = Some 10\<rparr>]"
    unfolding tk ie by (simp add: errorRecord_def)
  moreover have "mutationErrorsByEntryIndex (finalState ?r)
      = [(Some 2, \<lparr>errStatus = 7, errEntry = Some 12\<rparr>),
         (Some 0, \<lparr>errStatus = 14, errEntry = Some 10\<rparr>)]"
    by code_simp
  ultimately show ?thesis
    using cb fo by simp
qed

subsection \<open>Success after \<open>k\<close> attempts\<close>

text \<open>
  C5 as stated fails in these ways, in this order below. The one entry reports ok in the
  first attempt and the stream then ends with \<open>error\<close>: the callback receives the
  stream's error. The position is reported twice, ok and then unavailable, or a result
  names a position outside the batch: the callback receives a partial failure. One
  object twice, both positions ok in every attempt, and four requests are made: the
  defect of C1 and C4. With no entries one request is made, not none. An entry that is
  ok in the first attempt has reported ok within two attempts as well, and one request
  is made. When every stream fires two \<open>request\<close> events, an entry that would be ok
  in the third attempt gets two requests and a partial failure.
\<close>

theorem all_ok_yet_no_plain_success:
  "callbacks (mutate code (Some 3) [10 :: nat]
      [\<lparr>requestEvents = 1, dataEvents = [[entryStatus 0 0]], errorEvent = Some ''reset''\<rparr>])
    = [StreamError ''reset'']
   \<and> callbacks (mutate code (Some 3) [10 :: nat]
      [\<lparr>requestEvents = 1, dataEvents = [[entryStatus 0 0, entryStatus 0 14]],
        errorEvent = None :: string option\<rparr>])
    = [PartialFailureError [\<lparr>errStatus = 14, errEntry = Some 10\<rparr>]]
   \<and> callbacks (mutate code (Some 3) [10 :: nat]
      [\<lparr>requestEvents = 1, dataEvents = [[entryStatus 0 0, entryStatus 3 14]],
        errorEvent = None :: string option\<rparr>])
    = [PartialFailureError [\<lparr>errStatus = 14, errEntry = None\<rparr>]]
   \<and> length (calls (mutate code (Some 3) [7 :: nat, 7]
      (replicate 5 \<lparr>requestEvents = 1, dataEvents = [[entryStatus 0 0, entryStatus 1 0]],
        errorEvent = None :: string option\<rparr>))) = 4
   \<and> length (calls (mutate code (Some 3) ([] :: nat list)
      [\<lparr>requestEvents = 1, dataEvents = [], errorEvent = None :: string option\<rparr>])) = 1
   \<and> length (calls (mutate code (Some 3) [10 :: nat]
      [\<lparr>requestEvents = 1, dataEvents = [[entryStatus 0 0]], errorEvent = None :: string option\<rparr>,
       \<lparr>requestEvents = 1, dataEvents = [[entryStatus 0 0]], errorEvent = None\<rparr>])) = 1
   \<and> callbacks (mutate code (Some 3) [10 :: nat]
      [\<lparr>requestEvents = 2, dataEvents = [[entryStatus 0 14]], errorEvent = None :: string option\<rparr>,
       \<lparr>requestEvents = 2, dataEvents = [[entryStatus 0 14]], errorEvent = None\<rparr>,
       \<lparr>requestEvents = 2, dataEvents = [[entryStatus 0 0]], errorEvent = None\<rparr>])
    = [PartialFailureError [\<lparr>errStatus = 14, errEntry = Some 10\<rparr>]]"
proof -
  have c1: "callbacks (mutate code (Some 3) [10 :: nat]
      [\<lparr>requestEvents = 1, dataEvents = [[entryStatus 0 0]], errorEvent = Some ''reset''\<rparr>])
    = [StreamError ''reset'']"
    by code_simp
  have c2: "callbacks (mutate code (Some 3) [10 :: nat]
      [\<lparr>requestEvents = 1, dataEvents = [[entryStatus 0 0, entryStatus 0 14]],
        errorEvent = None :: string option\<rparr>])
    = [PartialFailureError [\<lparr>errStatus = 14, errEntry = Some 10\<rparr>]]"
    by code_simp
  have c3: "callbacks (mutate code (Some 3) [10 :: nat]
      [\<lparr>requestEvents = 1, dataEvents = [[entryStatus 0 0, entryStatus 3 14]],
        errorEvent = None :: string option\<rparr>])
    = [PartialFailureError [\<lparr>errStatus = 14, errEntry = None\<rparr>]]"
    by code_simp
  have c4: "length (calls (mutate code (Some 3) [7 :: nat, 7]
      (replicate 5 \<lparr>requestEvents = 1, dataEvents = [[entryStatus 0 0, entryStatus 1 0]],
        errorEvent = None :: string option\<rparr>))) = 4"
    by code_simp
  have c5: "length (calls (mutate code (Some 3) ([] :: nat list)
      [\<lparr>requestEvents = 1, dataEvents = [], errorEvent = None :: string option\<rparr>])) = 1"
    by code_simp
  have c6: "length (calls (mutate code (Some 3) [10 :: nat]
      [\<lparr>requestEvents = 1, dataEvents = [[entryStatus 0 0]], errorEvent = None :: string option\<rparr>,
       \<lparr>requestEvents = 1, dataEvents = [[entryStatus 0 0]], errorEvent = None\<rparr>])) = 1"
    by code_simp
  have c7: "callbacks (mutate code (Some 3) [10 :: nat]
      [\<lparr>requestEvents = 2, dataEvents = [[entryStatus 0 14]], errorEvent = None :: string option\<rparr>,
       \<lparr>requestEvents = 2, dataEvents = [[entryStatus 0 14]], errorEvent = None\<rparr>,
       \<lparr>requestEvents = 2, dataEvents = [[entryStatus 0 0]], errorEvent = None\<rparr>])
    = [PartialFailureError [\<lparr>errStatus = 14, errEntry = Some 10\<rparr>]]"
    by code_simp
  from c1 c2 c3 c4 c5 c6 c7 show ?thesis
    by (intro conjI)
qed

text \<open>
  C5, amended. Take pairwise distinct entry objects and \<open>1 \<le> k \<le> maxRetries\<close>, the
  first \<open>k\<close> streams each firing one \<open>request\<close> event and naming positions of their
  batch only, each at most once. If every entry has reported ok in these \<open>k\<close>
  attempts, not every entry has in the first \<open>k - 1\<close>, and the \<open>k\<close>-th stream ends
  with \<open>end\<close>, then exactly \<open>k\<close> requests are made and the callback is called once,
  without an error.
\<close>

theorem success_after_k_attempts:
  fixes d :: "rpc_status \<Rightarrow> 'd" and entries :: "'e list" and streams :: "'x batch_stream list"
  assumes "distinct entries"
    and "1 \<le> k" and "int k \<le> effectiveMaxRetries tmr" and "k \<le> length streams"
    and "\<forall>a<k. requestEvents (streams ! a) = 1"
    and "wellReported (length entries) {0..<length entries} (take k streams)"
    and "\<forall>i<length entries.
           reportedOk (resolvedTrace (length entries) {0..<length entries} (take k streams)) i"
    and "k = 1 \<or> (\<exists>i<length entries.
           \<not> reportedOk (resolvedTrace (length entries) {0..<length entries}
                           (take (k - 1) streams)) i)"
    and "errorEvent (streams ! (k - 1)) = None"
  shows "length (calls (mutate d tmr entries streams)) = k
     \<and> callbacks (mutate d tmr entries streams) = [NoError]"
proof -
  let ?n = "length entries"
  let ?st = "initialState entries :: ('d, 'e) mutate_state"
  let ?after = "stateAfter d entries ?st streams"
  let ?T = "resolvedTrace ?n {0..<?n} (take k streams)"
  note wf = assms(6)
  have pend: "pendingEntryIndices (?after k) = {}"
  proof -
    have "i \<in> set (map fst (filter leavesPending ?T))" if "i < ?n" for i
    proof -
      from assms(7) that obtain x where "x \<in> set ?T" "fst x = i" "code (snd x) = 0"
        by (auto simp: reportedOk_def)
      then show ?thesis
        by (force simp: leavesPending_def)
    qed
    then show ?thesis
      unfolding stateAfter_by_index(1) [OF assms(1) wf] pendingAfter_conv by auto
  qed
  have errs: "mutationErrorsByEntryIndex (?after k) = []"
  proof -
    have "reportedOk ?T (fst x)" if "x \<in> set ?T" for x
      using resolvedTrace_in_pending [OF wf that] assms(7) by simp
    then have "failedNeverOk ?T = []"
      by (rule failedNeverOk_empty)
    moreover have "map fst (specErrorsByIndex ?T) = failedNeverOk ?T"
      using wf by (intro indexErrors_keys resolvedTrace_noneAfterOk)
    ultimately have "specErrorsByIndex ?T = []"
      by simp
    then show ?thesis
      by (simp add: stateAfter_by_index(2) [OF assms(1) wf])
  qed
  have before: "\<forall>j. 1 \<le> j \<and> j < k \<longrightarrow> pendingEntryIndices (?after j) \<noteq> {}"
  proof (intro allI impI)
    fix j assume j: "1 \<le> j \<and> j < k"
    then have k1: "k \<noteq> 1" by simp
    with assms(2) obtain k' where k': "k = Suc k'"
      by (cases k) auto
    from assms(4) k' have lt: "k' < length streams" by simp
    have tk: "take k streams = take k' streams @ [streams ! k']"
      using lt k' by (simp add: take_Suc_conv_app_nth)
    let ?P' = "specPendingAfter ?n {0..<?n} (take k' streams)"
    let ?T' = "resolvedTrace ?n {0..<?n} (take k' streams)"
    from wf have wf': "wellReported ?n {0..<?n} (take k' streams)"
      and wfs: "wellReportedStream ?n ?P' (streams ! k')"
      by (simp_all add: tk wellReported_append)
    have T: "?T = ?T' @ resolved ?n ?P' (streams ! k')"
      by (simp add: tk resolvedTrace_append)
    from assms(8) k1 k' obtain i where i: "i < ?n" "\<not> reportedOk ?T' i"
      by auto
    from assms(7) i(1) have "reportedOk ?T i" by simp
    with i(2) obtain x where "x \<in> set (resolved ?n ?P' (streams ! k'))" "fst x = i"
      by (auto simp: T reportedOk_def)
    with resolved_in_pending [OF wfs] have "i \<in> ?P'"
      by blast
    then have "i \<in> pendingEntryIndices (?after k')"
      by (simp add: stateAfter_by_index(1) [OF assms(1) wf'])
    moreover from j k' have "j \<le> k'" by simp
    ultimately show "pendingEntryIndices (?after j) \<noteq> {}"
      using stateAfter_pending_mono [of j k' d entries ?st streams] by blast
  qed
  from run_resolved_after_k_attempts [OF assms(2,3,4,5) before pend errs assms(9)]
  show ?thesis by simp
qed

text \<open>Two entries, the second ok only in the second attempt.\<close>

theorem success_after_k_attempts_witness:
  "length (calls (mutate code (Some 3) [10 :: nat, 11]
      [\<lparr>requestEvents = 1, dataEvents = [[entryStatus 0 0, entryStatus 1 14]],
        errorEvent = None :: string option\<rparr>,
       \<lparr>requestEvents = 1, dataEvents = [[entryStatus 0 0]], errorEvent = None\<rparr>])) = 2
   \<and> callbacks (mutate code (Some 3) [10 :: nat, 11]
      [\<lparr>requestEvents = 1, dataEvents = [[entryStatus 0 0, entryStatus 1 14]],
        errorEvent = None :: string option\<rparr>,
       \<lparr>requestEvents = 1, dataEvents = [[entryStatus 0 0]], errorEvent = None\<rparr>]) = [NoError]
   \<and> map pendingEntryIndices (calls (mutate code (Some 3) [10 :: nat, 11]
      [\<lparr>requestEvents = 1, dataEvents = [[entryStatus 0 0, entryStatus 1 14]],
        errorEvent = None :: string option\<rparr>,
       \<lparr>requestEvents = 1, dataEvents = [[entryStatus 0 0]], errorEvent = None\<rparr>]))
     = [{0, 1}, {1}]"
proof -
  let ?streams = "[\<lparr>requestEvents = 1, dataEvents = [[entryStatus 0 0, entryStatus 1 14]],
        errorEvent = None :: string option\<rparr>,
       \<lparr>requestEvents = 1, dataEvents = [[entryStatus 0 0]], errorEvent = None\<rparr>]"
  let ?entries = "[10 :: nat, 11]"
  have h0: "distinct ?entries"
    by simp
  have h1: "(1 :: nat) \<le> 2" and h2: "int 2 \<le> effectiveMaxRetries (Some 3)"
    and h3: "2 \<le> length ?streams"
    by (simp_all add: effectiveMaxRetries_def)
  have h4: "\<forall>a<2. requestEvents (?streams ! a) = 1"
    by (simp add: less_Suc_eq numeral_2_eq_2)
  have h5: "wellReported (length ?entries) {0..<length ?entries} (take 2 ?streams)"
    by code_simp
  have ok0: "reportedOk (resolvedTrace (length ?entries) {0..<length ?entries} (take 2 ?streams)) 0"
    by code_simp
  have ok1: "reportedOk (resolvedTrace (length ?entries) {0..<length ?entries} (take 2 ?streams)) 1"
    by code_simp
  have h6: "\<forall>i<length ?entries.
      reportedOk (resolvedTrace (length ?entries) {0..<length ?entries} (take 2 ?streams)) i"
  proof (intro allI impI)
    fix i assume "i < length ?entries"
    then have "i = 0 \<or> i = 1" by auto
    with ok0 ok1 show "reportedOk (resolvedTrace (length ?entries) {0..<length ?entries}
        (take 2 ?streams)) i"
      by blast
  qed
  have nok: "\<not> reportedOk (resolvedTrace (length ?entries) {0..<length ?entries}
      (take (2 - 1) ?streams)) 1"
    by code_simp
  have h7: "(2 :: nat) = 1 \<or> (\<exists>i<length ?entries.
      \<not> reportedOk (resolvedTrace (length ?entries) {0..<length ?entries}
        (take (2 - 1) ?streams)) i)"
  proof (rule disjI2, rule exI [of _ 1], rule conjI)
    show "1 < length ?entries" by simp
    show "\<not> reportedOk (resolvedTrace (length ?entries) {0..<length ?entries}
      (take (2 - 1) ?streams)) 1" by (rule nok)
  qed
  have h8: "errorEvent (?streams ! (2 - 1)) = None"
    by simp
  have direct: "map pendingEntryIndices (calls (mutate code (Some 3) ?entries ?streams))
     = [{0, 1}, {1}]"
    by code_simp
  from success_after_k_attempts [OF h0 h1 h2 h3 h4 h5 h6 h7 h8] direct show ?thesis
    by simp
qed

section \<open>Properties of the read request\<close>

text \<open>
  C9. The ranges of the request are the caller's ranges, then one range of
  \<open>start\<close> and \<open>end\<close> when either is given, then the range of the prefix when it is
  given (given: present and not the empty string), each passed to \<open>Filter.createRange\<close>
  and none dropped or merged; the keys are the caller's keys, each passed to
  \<open>Mutation.convertToBytes\<close>; the filter is the caller's, passed to \<open>Filter.parse\<close>;
  the limit is the caller's when it is not zero. With no keys, ranges, prefix, start or
  end the request has no \<open>rows\<close>: a scan of the whole table.
\<close>

theorem createReadStream_request:
  fixes convertToBytes :: "'k \<Rightarrow> 'b" and createRange :: "bound \<Rightarrow> bound \<Rightarrow> 'r"
    and parseFilter :: "'f \<Rightarrow> 'p" and tableId :: 't and options :: "('k, 'f) read_options"
  shows
    "readRanges options =
        (case optRanges options of Some rs \<Rightarrow> rs | None \<Rightarrow> [])
        @ (if truthyBound (optStart options) \<or> truthyBound (optEnd options)
           then [\<lparr>rangeStart = optStart options, rangeEnd = optEnd options\<rparr>] else [])
        @ (case optPrefix options of
             Some prefix \<Rightarrow> if prefix \<noteq> [] then [createPrefixRange prefix] else []
           | None \<Rightarrow> [])
     \<and> rows (createReadStream_reqOpts convertToBytes createRange parseFilter tableId options) =
         (if optKeys options = None \<and> readRanges options = [] then None
          else Some \<lparr>rowKeys = map_option (map convertToBytes) (optKeys options),
                     rowRanges =
                       (if readRanges options = [] then None
                        else Some (map (\<lambda>range. createRange (rangeStart range) (rangeEnd range))
                                     (readRanges options)))\<rparr>)
     \<and> reqFilter (createReadStream_reqOpts convertToBytes createRange parseFilter tableId options)
         = map_option parseFilter (optFilter options)
     \<and> rowsLimit (createReadStream_reqOpts convertToBytes createRange parseFilter tableId options)
         = (if truthyNumber (optLimit options) then optLimit options else None)
     \<and> tableName (createReadStream_reqOpts convertToBytes createRange parseFilter tableId options)
         = tableId
     \<and> (optKeys options = None
          \<and> (optRanges options = None \<or> optRanges options = Some [])
          \<and> (optPrefix options = None \<or> optPrefix options = Some [])
          \<and> \<not> truthyBound (optStart options) \<and> \<not> truthyBound (optEnd options) \<longrightarrow>
         rows (createReadStream_reqOpts convertToBytes createRange parseFilter tableId options)
           = None)"
proof -
  have ranges: "readRanges options =
        (case optRanges options of Some rs \<Rightarrow> rs | None \<Rightarrow> [])
        @ (if truthyBound (optStart options) \<or> truthyBound (optEnd options)
           then [\<lparr>rangeStart = optStart options, rangeEnd = optEnd options\<rparr>] else [])
        @ (case optPrefix options of
             Some prefix \<Rightarrow> if prefix \<noteq> [] then [createPrefixRange prefix] else []
           | None \<Rightarrow> [])"
    by (simp add: readRanges_def Let_def split: option.splits)
  have rows: "rows (createReadStream_reqOpts convertToBytes createRange parseFilter tableId options) =
         (if optKeys options = None \<and> readRanges options = [] then None
          else Some \<lparr>rowKeys = map_option (map convertToBytes) (optKeys options),
                     rowRanges =
                       (if readRanges options = [] then None
                        else Some (map (\<lambda>range. createRange (rangeStart range) (rangeEnd range))
                                     (readRanges options)))\<rparr>)"
    by (simp add: createReadStream_reqOpts_def Let_def split: option.splits)
  have filt: "reqFilter (createReadStream_reqOpts convertToBytes createRange parseFilter tableId options)
         = map_option parseFilter (optFilter options)"
    by (simp add: createReadStream_reqOpts_def Let_def split: option.splits)
  have lim: "rowsLimit (createReadStream_reqOpts convertToBytes createRange parseFilter tableId options)
         = (if truthyNumber (optLimit options) then optLimit options else None)"
    by (simp add: createReadStream_reqOpts_def Let_def split: option.splits)
  have tab: "tableName (createReadStream_reqOpts convertToBytes createRange parseFilter tableId options)
         = tableId"
    by (simp add: createReadStream_reqOpts_def Let_def split: option.splits)
  have full: "rows (createReadStream_reqOpts convertToBytes createRange parseFilter tableId options)
           = None"
    if "optKeys options = None
          \<and> (optRanges options = None \<or> optRanges options = Some [])
          \<and> (optPrefix options = None \<or> optPrefix options = Some [])
          \<and> \<not> truthyBound (optStart options) \<and> \<not> truthyBound (optEnd options)"
    using that by (auto simp: rows ranges)
  from ranges rows filt lim tab full show ?thesis
    by (intro conjI impI)
qed

text \<open>A repeated range stays repeated; the empty options give no \<open>rows\<close>.\<close>

theorem createReadStream_request_witness:
  "rows (createReadStream_reqOpts (\<lambda>k :: jsstring. k) Pair (\<lambda>f :: nat. f) ''t''
      \<lparr>optDecode = None, optEnd = Undefined, optFilter = None, optKeys = Some [[0x6B]],
       optLimit = Some 5, optPrefix = Some [0x61],
       optRanges = Some [\<lparr>rangeStart = Key [0x62], rangeEnd = Key [0x63]\<rparr>,
                         \<lparr>rangeStart = Key [0x62], rangeEnd = Key [0x63]\<rparr>],
       optStart = Key [0x64]\<rparr>)
    = Some \<lparr>rowKeys = Some [[0x6B]],
            rowRanges = Some [(Key [0x62], Key [0x63]), (Key [0x62], Key [0x63]),
                              (Key [0x64], Undefined), (Key [0x61], Bounded [0x62] False)]\<rparr>
   \<and> rows (createReadStream_reqOpts (\<lambda>k :: jsstring. k) Pair (\<lambda>f :: nat. f) ''t''
      \<lparr>optDecode = None, optEnd = Undefined, optFilter = None, optKeys = None,
       optLimit = None, optPrefix = None, optRanges = None, optStart = Undefined\<rparr>) = None"
proof -
  let ?o1 = "\<lparr>optDecode = None, optEnd = Undefined, optFilter = None :: nat option,
       optKeys = Some [[0x6B :: 16 word]],
       optLimit = Some 5, optPrefix = Some [0x61],
       optRanges = Some [\<lparr>rangeStart = Key [0x62], rangeEnd = Key [0x63]\<rparr>,
                         \<lparr>rangeStart = Key [0x62], rangeEnd = Key [0x63]\<rparr>],
       optStart = Key [0x64]\<rparr>"
  let ?o2 = "\<lparr>optDecode = None, optEnd = Undefined, optFilter = None :: nat option,
       optKeys = None :: jsstring list option,
       optLimit = None, optPrefix = None, optRanges = None, optStart = Undefined\<rparr>"
  have pr: "createPrefixRange [0x61] = \<lparr>rangeStart = Key [0x61], rangeEnd = Bounded [0x62] False\<rparr>"
    by (simp add: createPrefixRange_def stripTrailingFF_def)
  note t1 = createReadStream_request [of ?o1 "\<lambda>k :: jsstring. k" Pair "\<lambda>f :: nat. f" "''t''"]
  note t2 = createReadStream_request [of ?o2 "\<lambda>k :: jsstring. k" Pair "\<lambda>f :: nat. f" "''t''"]
  from t1 have r1: "readRanges ?o1 = [\<lparr>rangeStart = Key [0x62], rangeEnd = Key [0x63]\<rparr>,
                         \<lparr>rangeStart = Key [0x62], rangeEnd = Key [0x63]\<rparr>,
                         \<lparr>rangeStart = Key [0x64], rangeEnd = Undefined\<rparr>,
                         \<lparr>rangeStart = Key [0x61], rangeEnd = Bounded [0x62] False\<rparr>]"
    by (simp add: pr)
  from t1 r1 have "rows (createReadStream_reqOpts (\<lambda>k :: jsstring. k) Pair (\<lambda>f :: nat. f) ''t'' ?o1)
    = Some \<lparr>rowKeys = Some [[0x6B]],
            rowRanges = Some [(Key [0x62], Key [0x63]), (Key [0x62], Key [0x63]),
                              (Key [0x64], Undefined), (Key [0x61], Bounded [0x62] False)]\<rparr>"
    by simp
  moreover from t2 have "rows (createReadStream_reqOpts (\<lambda>k :: jsstring. k) Pair (\<lambda>f :: nat. f) ''t'' ?o2) = None"
    by simp
  ultimately show ?thesis
    by simp
qed

end
